theory Spec2Isabelle
  imports Main
begin

section \<open>Go strings: bytes and UTF-8 runes\<close>

text \<open>
  A Go \<^verbatim>\<open>string\<close> is a sequence of bytes, here a \<^typ>\<open>string\<close> (a list of 8-bit
  characters). The library functions that \<^verbatim>\<open>parseHandler\<close> calls
  (\<^verbatim>\<open>strings.TrimSpace\<close>, \<^verbatim>\<open>regexp\<close>, \<^verbatim>\<open>encoding/json\<close>) read such a string rune by
  rune with \<^verbatim>\<open>utf8.DecodeRune\<close>: a byte that does not start a well-formed encoding is the
  rune U+FFFD of width 1.
\<close>

type_synonym rune = nat

definition RuneError :: rune where
  "RuneError = 0xFFFD"

definition RuneSelf :: nat where
  "RuneSelf = 0x80"

definition UTFMax :: nat where
  "UTFMax = 4"

text \<open>
  The table \<^verbatim>\<open>first\<close> of package \<^verbatim>\<open>utf8\<close> together with \<^verbatim>\<open>acceptRanges\<close>: for a lead
  byte, the length of the encoding and the range allowed for the second byte;
  \<open>None\<close> for the bytes marked \<^verbatim>\<open>xx\<close> (0x80-0xC1 and 0xF5-0xFF).
\<close>

definition utf8_first :: "nat \<Rightarrow> (nat \<times> nat \<times> nat) option" where
  "utf8_first b =
     (if 0xC2 \<le> b \<and> b \<le> 0xDF then Some (2, 0x80, 0xBF)
      else if b = 0xE0 then Some (3, 0xA0, 0xBF)
      else if 0xE1 \<le> b \<and> b \<le> 0xEC then Some (3, 0x80, 0xBF)
      else if b = 0xED then Some (3, 0x80, 0x9F)
      else if 0xEE \<le> b \<and> b \<le> 0xEF then Some (3, 0x80, 0xBF)
      else if b = 0xF0 then Some (4, 0x90, 0xBF)
      else if 0xF1 \<le> b \<and> b \<le> 0xF3 then Some (4, 0x80, 0xBF)
      else if b = 0xF4 then Some (4, 0x80, 0x8F)
      else None)"

text \<open>
  \<^verbatim>\<open>utf8.DecodeRuneInString\<close>: the rune at the front of \<open>s\<close> and its width in bytes.
  The masks \<^verbatim>\<open>s0&mask2\<close>, \<^verbatim>\<open>s1&maskx\<close> and the shifts are written with \<open>mod\<close> and \<open>*\<close>
  (the or-ed parts have no bit in common).
\<close>

definition DecodeRune :: "string \<Rightarrow> rune \<times> nat" where
  "DecodeRune s =
     (case s of
        [] \<Rightarrow> (RuneError, 0)
      | c # t \<Rightarrow>
          let s0 = (of_char c :: nat) in
          if s0 < RuneSelf then (s0, 1)
          else
            (case utf8_first s0 of
               None \<Rightarrow> (RuneError, 1)
             | Some (sz, lo, hi) \<Rightarrow>
                 if length s < sz then (RuneError, 1)
                 else
                   let s1 = (of_char (s ! 1) :: nat) in
                   if s1 < lo \<or> hi < s1 then (RuneError, 1)
                   else if sz \<le> 2 then ((s0 mod 32) * 64 + s1 mod 64, 2)
                   else
                     let s2 = (of_char (s ! 2) :: nat) in
                     if s2 < 0x80 \<or> 0xBF < s2 then (RuneError, 1)
                     else if sz \<le> 3
                       then ((s0 mod 16) * 4096 + (s1 mod 64) * 64 + s2 mod 64, 3)
                     else
                       let s3 = (of_char (s ! 3) :: nat) in
                       if s3 < 0x80 \<or> 0xBF < s3 then (RuneError, 1)
                       else ((s0 mod 8) * 262144 + (s1 mod 64) * 4096
                               + (s2 mod 64) * 64 + s3 mod 64, 4)))"

text \<open>\<^verbatim>\<open>utf8.RuneStart\<close>: the byte is not a continuation byte (\<^verbatim>\<open>b&0xC0 != 0x80\<close>).\<close>

definition RuneStart :: "char \<Rightarrow> bool" where
  "RuneStart b = (\<not> (0x80 \<le> (of_char b :: nat) \<and> (of_char b :: nat) \<le> 0xBF))"

text \<open>
  The backwards scan of \<^verbatim>\<open>utf8.DecodeLastRuneInString\<close>:
  \<^verbatim>\<open>for start--; start >= lim; start-- { if RuneStart(s[start]) { break } }\<close>,
  entered with \<open>start\<close> already decremented.
\<close>

function scanStart :: "string \<Rightarrow> int \<Rightarrow> int \<Rightarrow> int" where
  "scanStart s start lim =
     (if start \<ge> lim
      then (if RuneStart (s ! nat start) then start else scanStart s (start - 1) lim)
      else start)"
  by pat_completeness auto
termination
  by (relation "measure (\<lambda>(s, start, lim). nat (start + 1 - lim))") auto

declare scanStart.simps [simp del]

text \<open>\<^verbatim>\<open>utf8.DecodeLastRuneInString\<close>: the last rune of \<open>s\<close> and its width.\<close>

definition DecodeLastRune :: "string \<Rightarrow> rune \<times> nat" where
  "DecodeLastRune s =
     (let end = length s in
      if end = 0 then (RuneError, 0)
      else
        let r = (of_char (s ! (end - 1)) :: nat) in
        if r < RuneSelf then (r, 1)
        else
          let lim = max 0 (int end - int UTFMax);
              start = nat (max 0 (scanStart s (int end - 2) lim));
              (r, width) = DecodeRune (drop start s)
          in if start + width \<noteq> end then (RuneError, 1) else (r, width))"

text \<open>
  \<^verbatim>\<open>unicode.IsSpace\<close>: in Latin-1 the runes
  \<^verbatim>\<open>'\t', '\n', '\v', '\f', '\r', ' ', U+0085, U+00A0\<close>; beyond it the table
  \<^verbatim>\<open>White_Space\<close>.
\<close>

definition IsSpace :: "rune \<Rightarrow> bool" where
  "IsSpace r =
     (if r \<le> 0xFF
      then r = 0x09 \<or> r = 0x0A \<or> r = 0x0B \<or> r = 0x0C \<or> r = 0x0D \<or> r = 0x20
             \<or> r = 0x85 \<or> r = 0xA0
      else r = 0x1680 \<or> (0x2000 \<le> r \<and> r \<le> 0x200A) \<or> r = 0x2028 \<or> r = 0x2029
             \<or> r = 0x202F \<or> r = 0x205F \<or> r = 0x3000)"


lemma DecodeRune_width_pos: "s \<noteq> [] \<Longrightarrow> 0 < snd (DecodeRune s)"
  by (auto simp: DecodeRune_def Let_def split: list.splits option.splits)

lemma utf8_first_Some:
  "utf8_first b = Some (sz, lo, hi) \<Longrightarrow>
     (sz = 2 \<or> sz = 3 \<or> sz = 4) \<and> 0x80 \<le> lo \<and> hi \<le> 0xBF \<and> 0xC2 \<le> b"
  by (auto simp: utf8_first_def split: if_splits)

lemma DecodeRune_width_le: "snd (DecodeRune s) \<le> length s"
proof (cases s)
  case Nil
  then show ?thesis by (simp add: DecodeRune_def)
next
  case (Cons c t)
  show ?thesis
  proof (cases "utf8_first (of_char c)")
    case None
    with Cons show ?thesis by (simp add: DecodeRune_def Let_def)
  next
    case (Some p)
    obtain sz lo hi where p: "p = (sz, lo, hi)" by (cases p) auto
    from Some p utf8_first_Some [of "of_char c" sz lo hi]
    have "sz = 2 \<or> sz = 3 \<or> sz = 4" by simp
    with Cons Some p show ?thesis
      by (auto simp: DecodeRune_def Let_def Suc_le_eq)
  qed
qed

lemma scanStart_le: "scanStart s start lim \<le> start"
proof (induction s start lim rule: scanStart.induct)
  case (1 s start lim)
  show ?case
  proof (cases "start \<ge> lim \<and> \<not> RuneStart (s ! nat start)")
    case True
    with 1 have "scanStart s (start - 1) lim \<le> start - 1" by simp
    with True show ?thesis by (subst scanStart.simps) simp
  next
    case False
    then show ?thesis by (subst scanStart.simps) auto
  qed
qed

lemma DecodeLastRune_width_pos: "s \<noteq> [] \<Longrightarrow> 0 < snd (DecodeLastRune s)"
proof -
  assume ne: "s \<noteq> []"
  define start where
    "start = nat (max 0 (scanStart s (int (length s) - 2) (max 0 (int (length s) - int UTFMax))))"
  have "scanStart s (int (length s) - 2) (max 0 (int (length s) - int UTFMax)) \<le> int (length s) - 2"
    by (rule scanStart_le)
  with ne have lt: "start < length s" unfolding start_def by (cases s) auto
  show ?thesis
    using lt unfolding DecodeLastRune_def Let_def start_def [symmetric]
    by (auto split: prod.splits)
qed

lemma DecodeLastRune_width_le: "snd (DecodeLastRune s) \<le> length s"
  unfolding DecodeLastRune_def Let_def
  by (cases "s = []") (auto simp: Suc_le_eq split: prod.splits)

section \<open>Package strings\<close>

text \<open>
  \<^verbatim>\<open>strings.Split(s, "\n")\<close>: the pieces of \<open>s\<close> between the newline bytes, in order.
  There is always at least one piece: the empty string splits into one empty piece.
\<close>

fun Split_nl :: "string \<Rightarrow> string list" where
  "Split_nl [] = [[]]"
| "Split_nl (c # cs) =
     (if c = CHR 0x0A then [] # Split_nl cs
      else (case Split_nl cs of l # ls \<Rightarrow> (c # l) # ls | [] \<Rightarrow> [[c]]))"

text \<open>
  \<^verbatim>\<open>strings.TrimLeftFunc(s, unicode.IsSpace)\<close>: the runes are decoded from the front
  (as \<^verbatim>\<open>range\<close> over a string does) and dropped while they are white space.
\<close>

function TrimLeftSpace :: "string \<Rightarrow> string" where
  "TrimLeftSpace s =
     (if s = [] then []
      else (case DecodeRune s of (r, w) \<Rightarrow>
              if IsSpace r then TrimLeftSpace (drop w s) else s))"
  by pat_completeness auto
termination
proof (relation "measure length")
  fix s :: string and r :: rune and w :: nat
  assume "s \<noteq> []" "(r, w) = DecodeRune s"
  then have "0 < w" using DecodeRune_width_pos [of s] by (metis snd_conv)
  with \<open>s \<noteq> []\<close> show "(drop w s, s) \<in> measure length" by simp
qed simp

declare TrimLeftSpace.simps [simp del]

text \<open>
  \<^verbatim>\<open>strings.TrimRightFunc(s, unicode.IsSpace)\<close>: the runes are decoded from the back
  with \<^verbatim>\<open>utf8.DecodeLastRuneInString\<close> and dropped while they are white space.
\<close>

function TrimRightSpace :: "string \<Rightarrow> string" where
  "TrimRightSpace s =
     (if s = [] then []
      else (case DecodeLastRune s of (r, w) \<Rightarrow>
              if IsSpace r then TrimRightSpace (take (length s - w) s) else s))"
  by pat_completeness auto
termination
proof (relation "measure length")
  fix s :: string and r :: rune and w :: nat
  assume "s \<noteq> []" "(r, w) = DecodeLastRune s"
  then have "0 < w" using DecodeLastRune_width_pos [of s] by (metis snd_conv)
  with \<open>s \<noteq> []\<close> show "(take (length s - w) s, s) \<in> measure length" by simp
qed simp

declare TrimRightSpace.simps [simp del]

text \<open>
  \<^verbatim>\<open>strings.TrimSpace\<close>: all leading and trailing white space removed, as defined by
  Unicode (\<^verbatim>\<open>TrimFunc(s, unicode.IsSpace)\<close>, first the left side, then the right).
\<close>

definition TrimSpace :: "string \<Rightarrow> string" where
  "TrimSpace s = TrimRightSpace (TrimLeftSpace s)"

section \<open>Package regexp\<close>

text \<open>
  The pattern of \<^verbatim>\<open>parseHandler\<close> uses anchors, literal runes, the classes \<^verbatim>\<open>.\<close> and
  \<^verbatim>\<open>\s\<close>, the repetitions \<^verbatim>\<open>*\<close>, \<^verbatim>\<open>*?\<close> and \<^verbatim>\<open>+\<close>, and capture groups. A compiled
  pattern is a sequence of instructions; \<^verbatim>\<open>x+\<close> is \<^verbatim>\<open>x\<close> followed by \<^verbatim>\<open>x*\<close>.
  Without flags \<^verbatim>\<open>.\<close> is any rune but newline, \<^verbatim>\<open>\s\<close> is \<^verbatim>\<open>[\t\n\f\r ]\<close>,
  \<^verbatim>\<open>^\<close> is the beginning and \<^verbatim>\<open>$\<close> the end of the text.
\<close>

datatype cls = AnyCharNotNL | PerlSpace | Lit rune

fun inClass :: "cls \<Rightarrow> rune \<Rightarrow> bool" where
  "inClass AnyCharNotNL r = (r \<noteq> 0x0A)"
| "inClass PerlSpace r = (r = 0x09 \<or> r = 0x0A \<or> r = 0x0C \<or> r = 0x0D \<or> r = 0x20)"
| "inClass (Lit c) r = (r = c)"

datatype inst =
    BeginText
  | EndText
  | One cls
  | StarGreedy cls
  | StarLazy cls
  | Cap nat

type_synonym caps = "nat \<rightharpoonup> nat"

text \<open>
  Matching at one position, with the preference order of Go's \<^verbatim>\<open>regexp\<close> (leftmost-first,
  as a backtracking matcher finds it): a greedy star first tries one more rune, a lazy
  star first tries to go on with the rest of the pattern. \<open>s\<close> is the text from byte
  offset \<open>pos\<close> on; the input is read rune by rune; \<open>Cap n\<close> stores the offset in
  slot \<open>n\<close> (slots \<open>2i\<close> and \<open>2i+1\<close> delimit group \<open>i\<close>).
\<close>

function tryMatch :: "inst list \<Rightarrow> string \<Rightarrow> nat \<Rightarrow> caps \<Rightarrow> caps option" where
  "tryMatch [] s pos cap = Some cap"
| "tryMatch (BeginText # p) s pos cap = (if pos = 0 then tryMatch p s pos cap else None)"
| "tryMatch (EndText # p) s pos cap = (if s = [] then tryMatch p s pos cap else None)"
| "tryMatch (Cap n # p) s pos cap = tryMatch p s pos (cap(n \<mapsto> pos))"
| "tryMatch (One c # p) s pos cap =
     (if s \<noteq> [] \<and> inClass c (fst (DecodeRune s))
      then tryMatch p (drop (snd (DecodeRune s)) s) (pos + snd (DecodeRune s)) cap
      else None)"
| "tryMatch (StarGreedy c # p) s pos cap =
     (if s \<noteq> [] \<and> inClass c (fst (DecodeRune s))
      then (case tryMatch (StarGreedy c # p) (drop (snd (DecodeRune s)) s)
                   (pos + snd (DecodeRune s)) cap of
              Some m \<Rightarrow> Some m
            | None \<Rightarrow> tryMatch p s pos cap)
      else tryMatch p s pos cap)"
| "tryMatch (StarLazy c # p) s pos cap =
     (case tryMatch p s pos cap of
        Some m \<Rightarrow> Some m
      | None \<Rightarrow>
          if s \<noteq> [] \<and> inClass c (fst (DecodeRune s))
          then tryMatch (StarLazy c # p) (drop (snd (DecodeRune s)) s)
                 (pos + snd (DecodeRune s)) cap
          else None)"
  by pat_completeness auto
termination
  by (relation "inv_image (less_than <*lex*> less_than)
                  (\<lambda>(p, s, pos, cap). (length p, length s))")
     (auto simp: DecodeRune_width_pos)

declare tryMatch.simps(5-7) [simp del]

text \<open>
  The unanchored search of \<^verbatim>\<open>FindStringSubmatch\<close>: the leftmost position at which the
  pattern matches.
\<close>

function search :: "inst list \<Rightarrow> string \<Rightarrow> nat \<Rightarrow> caps option" where
  "search p s pos =
     (case tryMatch p s pos Map.empty of
        Some m \<Rightarrow> Some m
      | None \<Rightarrow>
          if s = [] then None
          else search p (drop (snd (DecodeRune s)) s) (pos + snd (DecodeRune s)))"
  by pat_completeness auto
termination
  by (relation "measure (\<lambda>(p, s, pos). length s)") (auto simp: DecodeRune_width_pos)

declare search.simps [simp del]

text \<open>
  \<^verbatim>\<open>(*Regexp).FindStringSubmatch\<close> for a pattern with \<open>n\<close> groups: \<^verbatim>\<open>nil\<close> (here the
  empty list) when there is no match, else the \<open>n + 1\<close> strings of the match and of its
  groups (the empty string for a group that took no part).
\<close>

definition submatch :: "string \<Rightarrow> caps \<Rightarrow> nat \<Rightarrow> string" where
  "submatch s m i =
     (case (m (2 * i), m (2 * i + 1)) of
        (Some a, Some b) \<Rightarrow> take (b - a) (drop a s)
      | _ \<Rightarrow> [])"

definition FindStringSubmatch :: "inst list \<Rightarrow> nat \<Rightarrow> string \<Rightarrow> string list" where
  "FindStringSubmatch prog n s =
     (case search prog s 0 of
        None \<Rightarrow> []
      | Some m \<Rightarrow> map (submatch s m) [0..<n + 1])"

section \<open>The line classifier of parseHandler\<close>

record LogEntry =
  Timestamp :: string
  Level :: string
  Message :: string
  Raw :: string

text \<open>
  \<^verbatim>\<open>regexp.MustCompile(`^\[(.*?)\]\s+\[(.*?)\]\s+(.*)$`)\<close>: the compiled pattern, with
  slots 0 and 1 for the whole match and 2 to 7 for the three groups.
\<close>

definition logRegex :: "inst list" where
  "logRegex =
     [Cap 0, BeginText,
      One (Lit 0x5B), Cap 2, StarLazy AnyCharNotNL, Cap 3, One (Lit 0x5D),
      One PerlSpace, StarGreedy PerlSpace,
      One (Lit 0x5B), Cap 4, StarLazy AnyCharNotNL, Cap 5, One (Lit 0x5D),
      One PerlSpace, StarGreedy PerlSpace,
      Cap 6, StarGreedy AnyCharNotNL, Cap 7,
      EndText, Cap 1]"

text \<open>
  The body of the loop for a line that is not empty after trimming
  (\<^verbatim>\<open>match := logRegex.FindStringSubmatch(line)\<close> and the \<^verbatim>\<open>if len(match) == 4\<close>).
\<close>

definition classifyLine :: "string \<Rightarrow> LogEntry" where
  "classifyLine line =
     (let match = FindStringSubmatch logRegex 3 line in
      if length match = 4
      then \<lparr>Timestamp = match ! 1, Level = match ! 2, Message = match ! 3, Raw = []\<rparr>
      else \<lparr>Timestamp = [], Level = [], Message = [], Raw = line\<rparr>)"

text \<open>
  \<^verbatim>\<open>for _, line := range lines { ... }\<close> over the pieces of the body, appending to
  \<^verbatim>\<open>parsedData\<close>.
\<close>

fun parseLoop :: "string list \<Rightarrow> LogEntry list \<Rightarrow> LogEntry list" where
  "parseLoop [] parsedData = parsedData"
| "parseLoop (l # lines) parsedData =
     (let line = TrimSpace l in
      if line = [] then parseLoop lines parsedData
      else parseLoop lines (parsedData @ [classifyLine line]))"

definition parseText :: "string \<Rightarrow> LogEntry list" where
  "parseText logText = parseLoop (Split_nl logText) []"

section \<open>Package encoding/json\<close>

text \<open>
  \<^verbatim>\<open>htmlSafeSet\<close>: the ASCII bytes that \<^verbatim>\<open>json.Marshal\<close> copies as they are (it escapes
  for HTML): the bytes from space on, except the quote, the backslash and
  \<^verbatim>\<open>&\<close>, \<^verbatim>\<open><\<close>, \<^verbatim>\<open>>\<close>.
\<close>

definition htmlSafe :: "nat \<Rightarrow> bool" where
  "htmlSafe b =
     (0x20 \<le> b \<and> b < 0x80 \<and> b \<noteq> 0x22 \<and> b \<noteq> 0x5C \<and> b \<noteq> 0x26 \<and> b \<noteq> 0x3C \<and> b \<noteq> 0x3E)"

definition hex :: "nat \<Rightarrow> char" where
  "hex n = ''0123456789abcdef'' ! (n mod 16)"

lemma DecodeRune_take_width_pos: "(r, w) = DecodeRune (take UTFMax (c # t)) \<Longrightarrow> 0 < w"
  using DecodeRune_width_pos [of "take UTFMax (c # t)"]
  by (simp add: UTFMax_def) (metis snd_conv)

text \<open>
  The loop of \<^verbatim>\<open>appendString\<close> (Go 1.22 and later: \<^verbatim>\<open>\b\<close> and \<^verbatim>\<open>\f\<close> have short
  escapes): the escaped text of a string, without the enclosing quotes. A byte that is
  not part of a well-formed encoding becomes \<^verbatim>\<open>\ufffd\<close>; U+2028 and U+2029 are escaped.
\<close>

function encodeChars :: "string \<Rightarrow> string" where
  "encodeChars s =
     (case s of
        [] \<Rightarrow> []
      | c # t \<Rightarrow>
          let b = (of_char c :: nat) in
          if b < RuneSelf
          then (if htmlSafe b then [c]
                else if b = 0x5C \<or> b = 0x22 then [CHR 0x5C, c]
                else if b = 0x08 then [CHR 0x5C, CHR ''b'']
                else if b = 0x0C then [CHR 0x5C, CHR ''f'']
                else if b = 0x0A then [CHR 0x5C, CHR ''n'']
                else if b = 0x0D then [CHR 0x5C, CHR ''r'']
                else if b = 0x09 then [CHR 0x5C, CHR ''t'']
                else [CHR 0x5C, CHR ''u'', CHR ''0'', CHR ''0'', hex (b div 16), hex b])
               @ encodeChars t
          else
            (case DecodeRune (take UTFMax s) of (r, width) \<Rightarrow>
               if r = RuneError \<and> width = 1
               then [CHR 0x5C, CHR ''u'', CHR ''f'', CHR ''f'', CHR ''f'', CHR ''d'']
                      @ encodeChars (drop width s)
               else if r = 0x2028 \<or> r = 0x2029
               then [CHR 0x5C, CHR ''u'', CHR ''2'', CHR ''0'', CHR ''2'', hex r]
                      @ encodeChars (drop width s)
               else take width s @ encodeChars (drop width s)))"
  by pat_completeness auto
termination
  by (relation "measure length") (auto dest: DecodeRune_take_width_pos)

declare encodeChars.simps [simp del]

definition encodeString :: "string \<Rightarrow> string" where
  "encodeString s = [CHR 0x22] @ encodeChars s @ [CHR 0x22]"

text \<open>\<^verbatim>\<open>bytes.Join\<close> of the encoded elements with a comma.\<close>

fun joinComma :: "string list \<Rightarrow> string" where
  "joinComma [] = []"
| "joinComma [x] = x"
| "joinComma (x # y # ys) = x @ [CHR '',''] @ joinComma (y # ys)"

text \<open>
  The fields of \<^verbatim>\<open>LogEntry\<close> as the struct encoder sees them, in declaration order:
  the name of the \<^verbatim>\<open>json\<close> tag and the value. Every field has the option
  \<^verbatim>\<open>omitempty\<close>; \<^verbatim>\<open>isEmptyValue\<close> of a string is \<^verbatim>\<open>len == 0\<close>.
\<close>

definition LogEntry_fields :: "LogEntry \<Rightarrow> (string \<times> string) list" where
  "LogEntry_fields e =
     [(''timestamp'', Timestamp e), (''level'', Level e),
      (''message'', Message e), (''raw'', Raw e)]"

definition isEmptyValue :: "string \<Rightarrow> bool" where
  "isEmptyValue v = (length v = 0)"

text \<open>The fields the struct encoder writes: those it does not skip as empty.\<close>

definition emittedFields :: "LogEntry \<Rightarrow> (string \<times> string) list" where
  "emittedFields e = filter (\<lambda>(name, v). \<not> isEmptyValue v) (LogEntry_fields e)"

text \<open>
  The struct encoder: \<^verbatim>\<open>{\<close>, the fields it does not skip as \<^verbatim>\<open>"name":value\<close>
  separated by commas, \<^verbatim>\<open>}\<close>.
\<close>

definition encodeField :: "string \<times> string \<Rightarrow> string" where
  "encodeField f = [CHR 0x22] @ fst f @ [CHR 0x22, CHR '':''] @ encodeString (snd f)"

definition encodeStruct :: "LogEntry \<Rightarrow> string" where
  "encodeStruct e = [CHR ''{''] @ joinComma (map encodeField (emittedFields e)) @ [CHR ''}'']"

text \<open>
  The slice encoder. \<^verbatim>\<open>parsedData\<close> is declared \<^verbatim>\<open>var parsedData []LogEntry\<close>, a nil
  slice, and \<^verbatim>\<open>append\<close> is the only thing that changes it: it is nil exactly when it has
  no element, so the list \<open>[]\<close> stands for the nil slice. A nil slice encodes as the JSON
  value \<^verbatim>\<open>null\<close>, any other as an array.
\<close>

definition encodeSlice :: "LogEntry list \<Rightarrow> string" where
  "encodeSlice v =
     (if v = [] then ''null''
      else [CHR ''[''] @ joinComma (map encodeStruct v) @ [CHR '']''])"

text \<open>
  \<^verbatim>\<open>json.Marshal(parsedData)\<close>: an error (\<open>Inl\<close>) or the encoding. Strings and structs of
  strings always encode.
\<close>

definition json_Marshal :: "LogEntry list \<Rightarrow> string + string" where
  "json_Marshal v = Inr (encodeSlice v)"

section \<open>Requests, responses and the audit record\<close>

text \<open>
  What \<^verbatim>\<open>parseHandler\<close> reads of the \<^verbatim>\<open>*http.Request\<close>: \<^verbatim>\<open>r.Method\<close>, \<^verbatim>\<open>r.RemoteAddr\<close>,
  \<^verbatim>\<open>r.URL.Path\<close>, and what \<^verbatim>\<open>io.ReadAll(r.Body)\<close> returns when it is called: an error
  (\<open>Inl\<close>) or the bytes of the body.
\<close>

record Request =
  Method :: string
  RemoteAddr :: string
  URL_Path :: string
  Body :: "string + string"

text \<open>
  The \<^verbatim>\<open>http.ResponseWriter\<close>: the header map, the status code once the header is
  written, and the bytes written to the body.
\<close>

record ResponseWriter =
  Header :: "string \<rightharpoonup> string"
  status :: "nat option"
  written :: string

definition NewResponseWriter :: ResponseWriter where
  "NewResponseWriter = \<lparr>Header = Map.empty, status = None, written = []\<rparr>"

text \<open>
  The struct \<^verbatim>\<open>LogRecord\<close>. Its fields \<^verbatim>\<open>Timestamp\<close> and \<^verbatim>\<open>RemoteAddr\<close> are named
  \<open>RecTimestamp\<close> and \<open>RecRemoteAddr\<close> here (\<^verbatim>\<open>LogEntry\<close> and the request have fields of
  these names). A \<^verbatim>\<open>time.Time\<close> is an abstract instant; the \<^verbatim>\<open>json.RawMessage\<close> is its
  bytes, nil being the empty list.
\<close>

record LogRecord =
  RecTimestamp :: nat
  RecRemoteAddr :: string
  RequestBody :: string
  ResponseBody :: string
  StatusCode :: nat
  ErrorMsg :: string

text \<open>The lines the handler hands to \<^verbatim>\<open>log.Printf\<close>, by format string, with arguments.\<close>

datatype LogLine =
    ReceivedRequest string string string
  | RejectedRequest string string
  | ErrorReadingBody string string
  | ReceivedLogData nat
  | ErrorMarshaling string string
  | ErrorWriting string string
  | SuccessfullyParsed string
  | FailedToInsert string

text \<open>
  The effects of one call of the handler beyond the response, in order: a log line, the
  read of the request body, an \<^verbatim>\<open>INSERT\<close> sent to the database with its record.
\<close>

datatype Event =
    Printf LogLine
  | ReadAll
  | Exec LogRecord

text \<open>
  What the handler cannot decide: the clock, whether \<^verbatim>\<open>dbPool.Exec\<close> fails (with which
  error), and whether writing to the client fails.
\<close>

record Env =
  now :: nat
  execErr :: "string option"
  writeErr :: "string option"

definition StatusOK :: nat where "StatusOK = 200"
definition StatusMethodNotAllowed :: nat where "StatusMethodNotAllowed = 405"
definition StatusInternalServerError :: nat where "StatusInternalServerError = 500"
definition MethodPost :: string where "MethodPost = ''POST''"

text \<open>\<^verbatim>\<open>w.WriteHeader(code)\<close>: the first call fixes the status, a later one is ignored.\<close>

definition WriteHeader :: "nat \<Rightarrow> ResponseWriter \<Rightarrow> ResponseWriter" where
  "WriteHeader code w = (if status w = None then w\<lparr>status := Some code\<rparr> else w)"

text \<open>
  \<^verbatim>\<open>w.Write(b)\<close>: writes the header with status 200 if none was written, then the
  bytes; when the connection fails the bytes are not written and the error is returned.
\<close>

definition Write :: "Env \<Rightarrow> string \<Rightarrow> ResponseWriter \<Rightarrow> ResponseWriter \<times> string option" where
  "Write env b w =
     (let w1 = WriteHeader StatusOK w in
      case writeErr env of
        None \<Rightarrow> (w1\<lparr>written := written w1 @ b\<rparr>, None)
      | Some e \<Rightarrow> (w1, Some e))"

text \<open>
  \<^verbatim>\<open>http.Error(w, error, code)\<close>: deletes \<^verbatim>\<open>Content-Length\<close>, sets the content type to plain
  text and \<^verbatim>\<open>X-Content-Type-Options\<close>, writes the header with \<open>code\<close> and prints the
  message and a newline to the body, ignoring a failure of that write.
\<close>

definition http_Error :: "Env \<Rightarrow> ResponseWriter \<Rightarrow> string \<Rightarrow> nat \<Rightarrow> ResponseWriter" where
  "http_Error env w err code =
     (let w1 = w\<lparr>Header := (Header w)(''Content-Length'' := None)\<rparr>;
          w2 = w1\<lparr>Header := (Header w1)(''Content-Type'' \<mapsto> ''text/plain; charset=utf-8'')\<rparr>;
          w3 = w2\<lparr>Header := (Header w2)(''X-Content-Type-Options'' \<mapsto> ''nosniff'')\<rparr>;
          w4 = WriteHeader code w3
      in fst (Write env (err @ [CHR 0x0A]) w4))"

section \<open>recordLog and parseHandler\<close>

text \<open>
  \<^verbatim>\<open>recordLog\<close>: one \<^verbatim>\<open>dbPool.Exec\<close> of the \<^verbatim>\<open>INSERT\<close> with the six fields of the record.
  The state is the table \<^verbatim>\<open>delogged\<close> (its rows, in insertion order) and the trace of
  events. When \<^verbatim>\<open>Exec\<close> fails no row is added and the failure is only logged.
\<close>

definition recordLog ::
  "Env \<Rightarrow> LogRecord \<Rightarrow> LogRecord list \<times> Event list \<Rightarrow> LogRecord list \<times> Event list" where
  "recordLog env record st =
     (case st of (table, trace) \<Rightarrow>
        (case execErr env of
           None \<Rightarrow> (table @ [record], trace @ [Exec record])
         | Some err \<Rightarrow> (table, trace @ [Exec record, Printf (FailedToInsert err)])))"

text \<open>
  The statements of \<^verbatim>\<open>parseHandler\<close> from the first \<^verbatim>\<open>log.Printf\<close> to each
  \<^verbatim>\<open>return\<close>: the record, the response writer and the trace as they are when the
  function returns.
\<close>

definition parseHandler_body ::
  "Env \<Rightarrow> ResponseWriter \<Rightarrow> Request \<Rightarrow> LogRecord \<Rightarrow> LogRecord \<times> ResponseWriter \<times> Event list" where
  "parseHandler_body env w r record =
     (let trace = [Printf (ReceivedRequest (RemoteAddr r) (Method r) (URL_Path r))] in
      if Method r \<noteq> MethodPost
      then
        (let w = http_Error env w ''Method not allowed'' StatusMethodNotAllowed;
             record = record\<lparr>StatusCode := StatusMethodNotAllowed\<rparr>;
             record = record\<lparr>ErrorMsg := ''Method not allowed''\<rparr>
         in (record, w, trace @ [Printf (RejectedRequest (RemoteAddr r) (Method r))]))
      else
        (let trace = trace @ [ReadAll] in
         case Body r of
           Inl err \<Rightarrow>
             (let w = http_Error env w ''Could not read request body'' StatusInternalServerError;
                  record = record\<lparr>StatusCode := StatusInternalServerError\<rparr>;
                  record = record\<lparr>ErrorMsg := ''Could not read request body''\<rparr>
              in (record, w, trace @ [Printf (ErrorReadingBody (RemoteAddr r) err)]))
         | Inr body \<Rightarrow>
             (let logText = body;
                  record = record\<lparr>RequestBody := logText\<rparr>;
                  trace = trace @ [Printf (ReceivedLogData (length logText))];
                  parsedData = parseText logText
              in case json_Marshal parsedData of
                   Inl err \<Rightarrow>
                     (let w = http_Error env w ''Error creating JSON response''
                                StatusInternalServerError;
                          record = record\<lparr>StatusCode := StatusInternalServerError\<rparr>;
                          record = record\<lparr>ErrorMsg := ''Error creating JSON response''\<rparr>
                      in (record, w, trace @ [Printf (ErrorMarshaling (RemoteAddr r) err)]))
                 | Inr responseBody \<Rightarrow>
                     (let record = record\<lparr>ResponseBody := responseBody\<rparr>;
                          w = w\<lparr>Header := (Header w)(''Content-Type'' \<mapsto> ''application/json'')\<rparr>;
                          w = w\<lparr>Header := (Header w)(''Access-Control-Allow-Origin'' \<mapsto> ''*'')\<rparr>;
                          (w, err) = Write env responseBody w;
                          trace = (case err of
                                     None \<Rightarrow> trace
                                   | Some e \<Rightarrow> trace @ [Printf (ErrorWriting (RemoteAddr r) e)])
                      in (record, w, trace @ [Printf (SuccessfullyParsed (RemoteAddr r))])))))"

text \<open>
  \<^verbatim>\<open>parseHandler\<close>: the record is created, the closure \<^verbatim>\<open>func() { recordLog(record) }()\<close>
  is deferred, the body runs. The closure refers to the variable \<^verbatim>\<open>record\<close>, so when it
  runs, at the return of the handler, it passes the record as the body left it.
  The result is the response, the table and the trace.
\<close>

definition parseHandler ::
  "Env \<Rightarrow> ResponseWriter \<Rightarrow> Request \<Rightarrow> LogRecord list
     \<Rightarrow> ResponseWriter \<times> LogRecord list \<times> Event list" where
  "parseHandler env w r table =
     (let record = \<lparr>RecTimestamp = now env, RecRemoteAddr = RemoteAddr r,
                     RequestBody = [], ResponseBody = [],
                     StatusCode = StatusOK, ErrorMsg = []\<rparr>;
          (record, w, trace) = parseHandler_body env w r record
      in (w, recordLog env record (table, trace)))"

text \<open>The records of the \<^verbatim>\<open>INSERT\<close>s in a trace: one for each call of \<^verbatim>\<open>dbPool.Exec\<close>.\<close>

fun execs :: "Event list \<Rightarrow> LogRecord list" where
  "execs [] = []"
| "execs (Exec record # es) = record # execs es"
| "execs (e # es) = execs es"

section \<open>Notions for the statements about lines\<close>

text \<open>A byte below \<^verbatim>\<open>utf8.RuneSelf\<close>: it is a rune by itself, of width 1.\<close>

definition ascii :: "char \<Rightarrow> bool" where
  "ascii c = ((of_char c :: nat) < 0x80)"

text \<open>The bytes of the class \<^verbatim>\<open>\s\<close>: tab, newline, form feed, carriage return, space.\<close>

definition perlSpace :: "char \<Rightarrow> bool" where
  "perlSpace c = (c = CHR 0x09 \<or> c = CHR 0x0A \<or> c = CHR 0x0C \<or> c = CHR 0x0D \<or> c = CHR 0x20)"

text \<open>
  The shape \<^verbatim>\<open>[A] [B] C\<close> that the pattern asks of a whole line, in the words of the
  specification: an opening bracket, \<open>A\<close>, a closing bracket, one or more bytes of
  \<^verbatim>\<open>\s\<close>, an opening bracket, \<open>B\<close>, a closing bracket, one or more bytes of \<^verbatim>\<open>\s\<close>, and
  \<open>C\<close> up to the end of the line; \<^verbatim>\<open>.\<close> does not take a newline, so \<open>A\<close>, \<open>B\<close> and \<open>C\<close>
  hold none.
\<close>

definition lineMatch :: "string \<Rightarrow> string \<Rightarrow> string \<Rightarrow> string \<Rightarrow> bool" where
  "lineMatch line A B C =
     (\<exists>ws1 ws2. line = ''['' @ A @ '']'' @ ws1 @ ''['' @ B @ '']'' @ ws2 @ C
        \<and> ws1 \<noteq> [] \<and> ws2 \<noteq> [] \<and> list_all perlSpace ws1 \<and> list_all perlSpace ws2
        \<and> CHR 0x0A \<notin> set A \<and> CHR 0x0A \<notin> set B \<and> CHR 0x0A \<notin> set C)"

text \<open>
  A line can have that shape in several ways. The pattern's repetitions choose among
  them from left to right: the first group is lazy (\<open>A\<close> as short as possible), then the
  second group is lazy (\<open>B\<close> as short as possible for that \<open>A\<close>), then the white space
  after the second group is greedy, which leaves the shortest \<open>C\<close> (the greedy third
  group takes all that is left).
\<close>

definition leftmostFirst :: "string \<Rightarrow> string \<Rightarrow> string \<Rightarrow> string \<Rightarrow> bool" where
  "leftmostFirst line A B C =
     (lineMatch line A B C
      \<and> (\<forall>A' B' C'. lineMatch line A' B' C' \<longrightarrow> length A \<le> length A')
      \<and> (\<forall>B' C'. lineMatch line A B' C' \<longrightarrow> length B \<le> length B')
      \<and> (\<forall>C'. lineMatch line A B C' \<longrightarrow> length C \<le> length C'))"

text \<open>
  The number of places in a line where a closing bracket is followed by a byte of
  \<^verbatim>\<open>\s\<close>. A line of the shape above has at least two.
\<close>

fun closings :: "string \<Rightarrow> nat" where
  "closings (a # b # r) = (if a = CHR '']'' \<and> perlSpace b then 1 else 0) + closings (b # r)"
| "closings [a] = 0"
| "closings [] = 0"

text \<open>
  The runes of a string as Go reads them (\<^verbatim>\<open>for _, r := range s\<close>, \<^verbatim>\<open>[]rune(s)\<close>): the
  string is decoded from the front, rune after rune.
\<close>

function runes :: "string \<Rightarrow> rune list" where
  "runes s = (if s = [] then [] else fst (DecodeRune s) # runes (drop (snd (DecodeRune s)) s))"
  by pat_completeness auto
termination
  by (relation "measure length") (auto simp: DecodeRune_width_pos)

declare runes.simps [simp del]

text \<open>
  The compiled pattern from three of its positions on: after the white space that
  follows the second group, after the lazy repetition of the second group, and after
  the lazy repetition of the first group.
\<close>

definition afterSep :: "inst list" where
  "afterSep = [StarGreedy AnyCharNotNL, Cap 7, EndText, Cap 1]"

definition afterLevel :: "inst list" where
  "afterLevel = [Cap 5, One (Lit 0x5D), One PerlSpace, StarGreedy PerlSpace, Cap 6] @ afterSep"

definition afterTimestamp :: "inst list" where
  "afterTimestamp = [Cap 3, One (Lit 0x5D), One PerlSpace, StarGreedy PerlSpace,
                     One (Lit 0x5B), Cap 4, StarLazy AnyCharNotNL] @ afterLevel"

text \<open>The texts on which \<open>afterLevel\<close> and \<open>afterTimestamp\<close> can succeed.\<close>

definition tailShape :: "string \<Rightarrow> bool" where
  "tailShape s = (\<exists>ws C. s = '']'' @ ws @ C \<and> ws \<noteq> [] \<and> list_all perlSpace ws
                    \<and> CHR 0x0A \<notin> set C)"

definition midShape :: "string \<Rightarrow> bool" where
  "midShape s = (\<exists>ws B t. s = '']'' @ ws @ ''['' @ B @ t \<and> ws \<noteq> [] \<and> list_all perlSpace ws
                    \<and> CHR 0x0A \<notin> set B \<and> tailShape t)"

text \<open>The eight offsets the pattern stores when it matches a line of the shape above.\<close>

definition matchCaps :: "string \<Rightarrow> string \<Rightarrow> string \<Rightarrow> string \<Rightarrow> string \<Rightarrow> caps" where
  "matchCaps A ws1 B ws2 C =
     [0 \<mapsto> 0, 2 \<mapsto> 1, 3 \<mapsto> 1 + length A, 4 \<mapsto> 3 + length A + length ws1,
      5 \<mapsto> 3 + length A + length ws1 + length B,
      6 \<mapsto> 4 + length A + length ws1 + length B + length ws2,
      7 \<mapsto> 4 + length A + length ws1 + length B + length ws2 + length C,
      1 \<mapsto> 4 + length A + length ws1 + length B + length ws2 + length C]"

section \<open>Runes and bytes\<close>

lemma DecodeRune_ascii: "ascii c \<Longrightarrow> DecodeRune (c # t) = (of_char c, 1)"
  by (simp add: DecodeRune_def ascii_def RuneSelf_def)

lemma utf8_first_cases:
  "utf8_first b = None \<or> (\<exists>lo hi. utf8_first b = Some (2, lo, hi) \<and> 0x80 \<le> lo \<and> hi \<le> 0xBF \<and> 0xC2 \<le> b \<and> b \<le> 0xDF)
   \<or> (\<exists>lo hi. utf8_first b = Some (3, lo, hi) \<and> 0x80 \<le> lo \<and> hi \<le> 0xBF \<and> (b = 0xE0 \<longrightarrow> 0xA0 \<le> lo) \<and> 0xE0 \<le> b \<and> b \<le> 0xEF)
   \<or> (\<exists>lo hi. utf8_first b = Some (4, lo, hi) \<and> 0x80 \<le> lo \<and> hi \<le> 0xBF \<and> (b = 0xF0 \<longrightarrow> 0x90 \<le> lo) \<and> 0xF0 \<le> b \<and> b \<le> 0xF4)"
  by (simp add: utf8_first_def)

lemma rune2_ge: "(194::nat) \<le> x \<Longrightarrow> x \<le> 223 \<Longrightarrow> 128 \<le> x mod 32 * 64 + y"
proof -
  assume "(194::nat) \<le> x" "x \<le> 223"
  then have "2 \<le> x mod 32" by (simp add: le_mod_geq)
  then show ?thesis by simp
qed

lemma rune3_ge:
  "(224::nat) \<le> x \<Longrightarrow> x \<le> 239 \<Longrightarrow> (x = 224 \<longrightarrow> 160 \<le> lo) \<Longrightarrow> \<not> s1 < lo \<Longrightarrow> \<not> hi < s1
     \<Longrightarrow> hi \<le> 191 \<Longrightarrow> 128 \<le> x mod 16 * 4096 + s1 mod 64 * 64 + z"
proof -
  assume a: "(224::nat) \<le> x" "x \<le> 239" "(x = 224 \<longrightarrow> 160 \<le> lo)" "\<not> s1 < lo" "\<not> hi < s1" "hi \<le> 191"
  show ?thesis
  proof (cases "x = 224")
    case True
    with a have "160 \<le> s1" "s1 \<le> 191" by auto
    then have "32 \<le> s1 mod 64" by (simp add: le_mod_geq)
    then show ?thesis by simp
  next
    case False
    with a have "1 \<le> x mod 16" by (simp add: le_mod_geq)
    then show ?thesis by simp
  qed
qed

lemma rune4_ge:
  "(240::nat) \<le> x \<Longrightarrow> x \<le> 244 \<Longrightarrow> (x = 240 \<longrightarrow> 144 \<le> lo) \<Longrightarrow> \<not> s1 < lo \<Longrightarrow> \<not> hi < s1
     \<Longrightarrow> hi \<le> 191 \<Longrightarrow> 128 \<le> x mod 8 * 262144 + s1 mod 64 * 4096 + y + z"
proof -
  assume a: "(240::nat) \<le> x" "x \<le> 244" "(x = 240 \<longrightarrow> 144 \<le> lo)" "\<not> s1 < lo" "\<not> hi < s1" "hi \<le> 191"
  show ?thesis
  proof (cases "x = 240")
    case True
    with a have "144 \<le> s1" "s1 \<le> 191" by auto
    then have "16 \<le> s1 mod 64" by (simp add: le_mod_geq)
    then show ?thesis by simp
  next
    case False
    with a have "1 \<le> x mod 8" by (simp add: le_mod_geq)
    then show ?thesis by simp
  qed
qed

lemma DecodeRune_nonascii:
  assumes "\<not> ascii c" and "DecodeRune (c # t) = (r, w)"
  shows "0x80 \<le> r \<and> 1 \<le> w \<and> w \<le> length (c # t) \<and> (\<forall>x \<in> set (take w (c # t)). \<not> ascii x)"
proof -
  have c: "\<not> (of_char c :: nat) < RuneSelf" "(0x80::nat) \<le> of_char c"
    using assms(1) by (auto simp: ascii_def RuneSelf_def)
  consider (none) "utf8_first (of_char c) = None"
    | (two) lo hi where "utf8_first (of_char c) = Some (2, lo, hi)" "0x80 \<le> lo" "hi \<le> 0xBF" "(0xC2::nat) \<le> of_char c" "(of_char c::nat) \<le> 0xDF"
    | (three) lo hi where "utf8_first (of_char c) = Some (3, lo, hi)" "0x80 \<le> lo" "hi \<le> 0xBF" "(of_char c = (0xE0::nat) \<longrightarrow> 0xA0 \<le> lo)" "(0xE0::nat) \<le> of_char c" "(of_char c::nat) \<le> 0xEF"
    | (four) lo hi where "utf8_first (of_char c) = Some (4, lo, hi)" "0x80 \<le> lo" "hi \<le> 0xBF" "(of_char c = (0xF0::nat) \<longrightarrow> 0x90 \<le> lo)" "(0xF0::nat) \<le> of_char c" "(of_char c::nat) \<le> 0xF4"
    using utf8_first_cases [of "of_char c"] by (elim disjE exE conjE) auto
  then show ?thesis
  proof cases
    case none
    with assms c show ?thesis by (auto simp: DecodeRune_def RuneError_def ascii_def)
  next
    case two
    show ?thesis
    proof (cases t)
      case Nil
      with assms c two show ?thesis by (auto simp: DecodeRune_def RuneError_def ascii_def)
    next
      case (Cons d t')
      with assms c two show ?thesis
        by (auto simp: DecodeRune_def RuneError_def ascii_def Let_def rune2_ge split: if_splits)
    qed
  next
    case three
    show ?thesis
    proof (cases "length t < 2")
      case True
      with assms c three show ?thesis by (auto simp: DecodeRune_def RuneError_def ascii_def)
    next
      case False
      then obtain d e t' where t: "t = d # e # t'" by (cases t; cases "tl t") auto
      have g: "\<not> (of_char d :: nat) < lo \<Longrightarrow> \<not> hi < (of_char d :: nat) \<Longrightarrow> \<not> ascii d" "\<And>z. \<not> (of_char d :: nat) < lo \<Longrightarrow> \<not> hi < (of_char d :: nat)
           \<Longrightarrow> 128 \<le> (of_char c :: nat) mod 16 * 4096 + of_char d mod 64 * 64 + z"
        using three rune3_ge [of "of_char c" lo "of_char d" hi] by (auto simp: ascii_def)
      from assms c three t g show ?thesis
        by (auto simp: DecodeRune_def RuneError_def ascii_def Let_def split: if_splits)
    qed
  next
    case four
    show ?thesis
    proof (cases "length t < 3")
      case True
      with assms c four show ?thesis by (auto simp: DecodeRune_def RuneError_def ascii_def)
    next
      case False
      then obtain d e f t' where t: "t = d # e # f # t'"
        by (cases t; cases "tl t"; cases "tl (tl t)") auto
      have g: "\<not> (of_char d :: nat) < lo \<Longrightarrow> \<not> hi < (of_char d :: nat) \<Longrightarrow> \<not> ascii d" "\<And>y z. \<not> (of_char d :: nat) < lo \<Longrightarrow> \<not> hi < (of_char d :: nat)
           \<Longrightarrow> 128 \<le> (of_char c :: nat) mod 8 * 262144 + of_char d mod 64 * 4096 + y + z"
        using four rune4_ge [of "of_char c" lo "of_char d" hi] by (auto simp: ascii_def)
      from assms c four t g show ?thesis
        by (auto simp: DecodeRune_def RuneError_def ascii_def Let_def split: if_splits)
    qed
  qed
qed

lemma perlSpace_ascii: "perlSpace c \<Longrightarrow> ascii c"
  by (auto simp: perlSpace_def ascii_def)

lemma rune_step:
  assumes "DecodeRune (c # t) = (r, w)"
  shows "1 \<le> w \<and> w \<le> length (c # t)
         \<and> (ascii c \<longrightarrow> r = of_char c \<and> w = 1)
         \<and> (\<not> ascii c \<longrightarrow> 128 \<le> r \<and> (\<forall>x \<in> set (take w (c # t)). \<not> ascii x))"
proof (cases "ascii c")
  case True
  with assms DecodeRune_ascii [of c t] show ?thesis by simp
next
  case False
  with assms DecodeRune_nonascii [of c t r w] show ?thesis by simp
qed

lemma of_char_eq_numeral: "((of_char c :: nat) = of_char d) = (c = d)"
  by simp

lemma step_space:
  "inClass PerlSpace (fst (DecodeRune (c # t))) = perlSpace c"
proof (cases "ascii c")
  case True
  have "((of_char c :: nat) = 9) = (c = CHR 0x09)" "((of_char c :: nat) = 10) = (c = CHR 0x0A)"
    "((of_char c :: nat) = 12) = (c = CHR 0x0C)" "((of_char c :: nat) = 13) = (c = CHR 0x0D)"
    "((of_char c :: nat) = 32) = (c = CHR 0x20)"
    using of_char_eq_iff [of c "CHR 0x09", where ?'a = nat] of_char_eq_iff [of c "CHR 0x0A", where ?'a = nat]
      of_char_eq_iff [of c "CHR 0x0C", where ?'a = nat] of_char_eq_iff [of c "CHR 0x0D", where ?'a = nat]
      of_char_eq_iff [of c "CHR 0x20", where ?'a = nat]
    by simp_all
  with True show ?thesis by (simp add: DecodeRune_ascii perlSpace_def)
next
  case False
  obtain r w where d: "DecodeRune (c # t) = (r, w)" by (cases "DecodeRune (c # t)") auto
  with False rune_step [OF d] have "128 \<le> r" by simp
  moreover from False have "\<not> perlSpace c" using perlSpace_ascii by blast
  ultimately show ?thesis using d by auto
qed

lemma step_space_width: "perlSpace c \<Longrightarrow> snd (DecodeRune (c # t)) = 1"
  by (simp add: DecodeRune_ascii perlSpace_ascii)

lemma step_lit:
  assumes "ascii l"
  shows "inClass (Lit (of_char l)) (fst (DecodeRune (c # t))) = (c = l)"
proof (cases "ascii c")
  case True
  then show ?thesis by (auto simp: DecodeRune_ascii)
next
  case False
  obtain r w where d: "DecodeRune (c # t) = (r, w)" by (cases "DecodeRune (c # t)") auto
  with False rune_step [OF d] have "128 \<le> r" by simp
  moreover from assms have "(of_char l :: nat) < 128" by (simp add: ascii_def)
  moreover from False assms have "c \<noteq> l" by auto
  ultimately show ?thesis using d by auto
qed

lemma step_any:
  "inClass AnyCharNotNL (fst (DecodeRune (c # t))) = (c \<noteq> CHR 0x0A)"
proof (cases "ascii c")
  case True
  have "((of_char c :: nat) = 10) = (c = CHR 0x0A)"
    using of_char_eq_iff [of c "CHR 0x0A", where ?'a = nat] by simp
  with True show ?thesis by (simp add: DecodeRune_ascii)
next
  case False
  obtain r w where d: "DecodeRune (c # t) = (r, w)" by (cases "DecodeRune (c # t)") auto
  with False rune_step [OF d] have "128 \<le> r" by simp
  moreover from False have "c \<noteq> CHR 0x0A" by (auto simp: ascii_def)
  ultimately show ?thesis using d by auto
qed

lemma step_any_take:
  assumes "c \<noteq> CHR 0x0A"
  shows "CHR 0x0A \<notin> set (take (snd (DecodeRune (c # t))) (c # t))"
proof (cases "ascii c")
  case True
  with assms show ?thesis by (simp add: DecodeRune_ascii)
next
  case False
  obtain r w where d: "DecodeRune (c # t) = (r, w)" by (cases "DecodeRune (c # t)") auto
  with False rune_step [OF d] have "\<forall>x \<in> set (take w (c # t)). \<not> ascii x" by simp
  moreover have "ascii (CHR 0x0A)" by (simp add: ascii_def)
  ultimately show ?thesis using d by auto
qed

lemma One_Lit:
  "ascii l \<Longrightarrow> tryMatch (One (Lit (of_char l)) # p) s pos cap =
     (case s of [] \<Rightarrow> None | c # t \<Rightarrow> if c = l then tryMatch p t (pos + 1) cap else None)"
  by (cases s) (auto simp: tryMatch.simps(5) step_lit DecodeRune_ascii simp del: inClass.simps)

lemma One_Space:
  "tryMatch (One PerlSpace # p) s pos cap =
     (case s of [] \<Rightarrow> None | c # t \<Rightarrow> if perlSpace c then tryMatch p t (pos + 1) cap else None)"
  by (cases s) (auto simp: tryMatch.simps(5) step_space step_space_width simp del: inClass.simps)

lemma Greedy_Space_Nil: "tryMatch (StarGreedy PerlSpace # p) [] pos cap = tryMatch p [] pos cap"
  by (simp add: tryMatch.simps(6))

lemma Greedy_Space_Cons:
  "tryMatch (StarGreedy PerlSpace # p) (c # t) pos cap =
     (if perlSpace c
      then (case tryMatch (StarGreedy PerlSpace # p) t (pos + 1) cap of
              Some m \<Rightarrow> Some m
            | None \<Rightarrow> tryMatch p (c # t) pos cap)
      else tryMatch p (c # t) pos cap)"
  by (subst tryMatch.simps(6)) (auto simp: step_space step_space_width simp del: inClass.simps)

lemma greedy_space_first:
  "list_all perlSpace ws \<Longrightarrow> s' = [] \<or> \<not> perlSpace (hd s')
     \<Longrightarrow> tryMatch p s' (pos + length ws) cap = Some m
     \<Longrightarrow> tryMatch (StarGreedy PerlSpace # p) (ws @ s') pos cap = Some m"
proof (induction ws arbitrary: pos)
  case Nil
  then show ?case by (cases s') (auto simp: Greedy_Space_Nil Greedy_Space_Cons)
next
  case (Cons w ws)
  from Cons.prems have "tryMatch p s' (pos + 1 + length ws) cap = Some m" by simp
  with Cons.IH [of "pos + 1"] Cons.prems
  have "tryMatch (StarGreedy PerlSpace # p) (ws @ s') (pos + 1) cap = Some m" by simp
  with Cons.prems show ?case by (simp add: Greedy_Space_Cons)
qed

lemma greedy_space_sound:
  "tryMatch (StarGreedy PerlSpace # p) s pos cap = Some m
     \<Longrightarrow> \<exists>ws s'. s = ws @ s' \<and> list_all perlSpace ws \<and> tryMatch p s' (pos + length ws) cap = Some m"
proof (induction s arbitrary: pos)
  case Nil
  then show ?case by (simp add: Greedy_Space_Nil)
next
  case (Cons c t)
  show ?case
  proof (cases "perlSpace c \<and> tryMatch (StarGreedy PerlSpace # p) t (pos + 1) cap \<noteq> None")
    case True
    with Cons.prems have "tryMatch (StarGreedy PerlSpace # p) t (pos + 1) cap = Some m"
      by (auto simp: Greedy_Space_Cons)
    from Cons.IH [OF this] obtain ws s' where
      "t = ws @ s'" "list_all perlSpace ws" "tryMatch p s' (pos + 1 + length ws) cap = Some m"
      by blast
    with True have "c # t = (c # ws) @ s' \<and> list_all perlSpace (c # ws)
       \<and> tryMatch p s' (pos + length (c # ws)) cap = Some m" by simp
    then show ?thesis by blast
  next
    case False
    with Cons.prems have "tryMatch p (c # t) pos cap = Some m"
      by (auto simp: Greedy_Space_Cons split: if_splits)
    then have "c # t = [] @ (c # t) \<and> list_all perlSpace [] \<and> tryMatch p (c # t) (pos + length ([]::string)) cap = Some m"
      by simp
    then show ?thesis by blast
  qed
qed

section \<open>The matcher on the pattern of parseHandler\<close>

lemma Greedy_Any_Nil: "tryMatch (StarGreedy AnyCharNotNL # p) [] pos cap = tryMatch p [] pos cap"
  by (simp add: tryMatch.simps(6))

lemma Greedy_Any_Cons:
  "tryMatch (StarGreedy AnyCharNotNL # p) (c # t) pos cap =
     (if c \<noteq> CHR 0x0A
      then (case tryMatch (StarGreedy AnyCharNotNL # p) (drop (snd (DecodeRune (c # t))) (c # t))
                   (pos + snd (DecodeRune (c # t))) cap of
              Some m \<Rightarrow> Some m
            | None \<Rightarrow> tryMatch p (c # t) pos cap)
      else tryMatch p (c # t) pos cap)"
  by (subst tryMatch.simps(6)) (auto simp: step_any simp del: inClass.simps)

lemma Lazy_Any_Nil: "tryMatch (StarLazy AnyCharNotNL # p) [] pos cap = tryMatch p [] pos cap"
  by (simp add: tryMatch.simps(7) split: option.splits)

lemma Lazy_Any_Cons:
  "tryMatch (StarLazy AnyCharNotNL # p) (c # t) pos cap =
     (case tryMatch p (c # t) pos cap of
        Some m \<Rightarrow> Some m
      | None \<Rightarrow>
          if c \<noteq> CHR 0x0A
          then tryMatch (StarLazy AnyCharNotNL # p) (drop (snd (DecodeRune (c # t))) (c # t))
                 (pos + snd (DecodeRune (c # t))) cap
          else None)"
  by (subst tryMatch.simps(7)) (auto simp: step_any simp del: inClass.simps split: option.splits)

lemma width_bounds: "1 \<le> snd (DecodeRune (c # t)) \<and> snd (DecodeRune (c # t)) \<le> length (c # t)"
  using DecodeRune_width_pos [of "c # t"] DecodeRune_width_le [of "c # t"] by simp

lemma tail_any:
  "tryMatch [StarGreedy AnyCharNotNL, Cap 7, EndText, Cap 1] C pos cap =
     (if CHR 0x0A \<in> set C then None
      else Some (cap(7 \<mapsto> pos + length C, 1 \<mapsto> pos + length C)))"
proof (induction "length C" arbitrary: C pos rule: less_induct)
  case less
  show ?case
  proof (cases C)
    case Nil
    then show ?thesis by (simp add: Greedy_Any_Nil)
  next
    case (Cons c t)
    define w where "w = snd (DecodeRune (c # t))"
    have wb: "1 \<le> w" "w \<le> length (c # t)" using width_bounds [of c t] by (simp_all add: w_def)
    have fb: "tryMatch [Cap 7, EndText, Cap 1] (c # t) pos cap = None" by simp
    show ?thesis
    proof (cases "c = CHR 0x0A")
      case True
      with Cons fb show ?thesis by (simp add: Greedy_Any_Cons)
    next
      case False
      have lt: "length (drop w (c # t)) < length C" using wb Cons by simp
      note IH = less [OF lt, of "pos + w"]
      have nt: "CHR 0x0A \<notin> set (take w (c # t))" using step_any_take [OF False, of t] by (simp add: w_def)
      have split: "set (c # t) = set (take w (c # t)) \<union> set (drop w (c # t))"
        by (metis append_take_drop_id set_append)
      have len: "pos + w + length (drop w (c # t)) = pos + length (c # t)" using wb by simp
      show ?thesis
      proof (cases "CHR 0x0A \<in> set (drop w (c # t))")
        case True
        with IH have "tryMatch [StarGreedy AnyCharNotNL, Cap 7, EndText, Cap 1] (drop w (c # t)) (pos + w) cap = None"
          by simp
        moreover from True split have "CHR 0x0A \<in> set (c # t)" by blast
        ultimately show ?thesis using Cons False fb
          by (simp add: Greedy_Any_Cons w_def [symmetric] del: drop_Cons' set_simps)
      next
        case nin: False
        with IH len have "tryMatch [StarGreedy AnyCharNotNL, Cap 7, EndText, Cap 1] (drop w (c # t)) (pos + w) cap
            = Some (cap(7 \<mapsto> pos + length (c # t), 1 \<mapsto> pos + length (c # t)))"
          by simp
        moreover from nin nt split have "CHR 0x0A \<notin> set (c # t)" by blast
        ultimately show ?thesis using Cons False
          by (simp add: Greedy_Any_Cons w_def [symmetric] del: drop_Cons' set_simps)
      qed
    qed
  qed
qed

lemma lazy_sound:
  "tryMatch (StarLazy AnyCharNotNL # p) s pos cap = Some m
     \<Longrightarrow> \<exists>A s'. s = A @ s' \<and> CHR 0x0A \<notin> set A \<and> tryMatch p s' (pos + length A) cap = Some m"
proof (induction "length s" arbitrary: s pos rule: less_induct)
  case less
  show ?case
  proof (cases "tryMatch p s pos cap")
    case (Some m')
    with less.prems have "m' = m" by (cases s) (simp_all add: Lazy_Any_Nil Lazy_Any_Cons)
    with Some have "s = [] @ s \<and> CHR 0x0A \<notin> set ([]::string) \<and> tryMatch p s (pos + length ([]::string)) cap = Some m"
      by simp
    then show ?thesis by blast
  next
    case None
    with less.prems obtain c t where s: "s = c # t" by (cases s) (auto simp: Lazy_Any_Nil)
    define w where "w = snd (DecodeRune (c # t))"
    have wb: "1 \<le> w" "w \<le> length (c # t)" using width_bounds [of c t] by (simp_all add: w_def)
    from less.prems None s have c: "c \<noteq> CHR 0x0A"
      and r: "tryMatch (StarLazy AnyCharNotNL # p) (drop w (c # t)) (pos + w) cap = Some m"
      by (auto simp: Lazy_Any_Cons w_def split: if_splits)
    have lt: "length (drop w (c # t)) < length s" using wb s by simp
    from less.hyps [OF lt r] obtain A s' where
      A: "drop w (c # t) = A @ s'" "CHR 0x0A \<notin> set A" "tryMatch p s' (pos + w + length A) cap = Some m"
      by blast
    have nt: "CHR 0x0A \<notin> set (take w (c # t))" using step_any_take [OF c, of t] by (simp add: w_def)
    have "s = (take w (c # t) @ A) @ s'" using A(1) s by (metis append_assoc append_take_drop_id)
    moreover have "CHR 0x0A \<notin> set (take w (c # t) @ A)" using nt A(2) by simp
    moreover have "length (take w (c # t) @ A) = w + length A" using wb by simp
    ultimately show ?thesis using A(3) by (metis add.assoc)
  qed
qed

lemma lazy_first:
  assumes "CHR 0x0A \<notin> set A" and "rest = [] \<or> ascii (hd rest)"
      and "\<forall>k<length A. tryMatch p (drop k A @ rest) (pos + k) cap = None"
      and "tryMatch p rest (pos + length A) cap = Some m"
  shows "tryMatch (StarLazy AnyCharNotNL # p) (A @ rest) pos cap = Some m"
  using assms
proof (induction "length A" arbitrary: A pos rule: less_induct)
  case less
  show ?case
  proof (cases A)
    case Nil
    with less.prems show ?thesis by (cases rest) (simp_all add: Lazy_Any_Nil Lazy_Any_Cons)
  next
    case (Cons c t)
    define w where "w = snd (DecodeRune (c # t @ rest))"
    obtain r where d: "DecodeRune (c # t @ rest) = (r, w)"
      by (cases "DecodeRune (c # t @ rest)") (auto simp: w_def)
    note rs = rune_step [OF d]
    have c: "c \<noteq> CHR 0x0A" using less.prems(1) Cons by auto
    have wA: "w \<le> length A"
    proof (cases "ascii c")
      case True
      with rs Cons show ?thesis by simp
    next
      case False
      show ?thesis
      proof (rule ccontr)
        assume "\<not> w \<le> length A"
        then have wl: "length A < w" by simp
        with rs have "rest \<noteq> []" using Cons by auto
        with less.prems(2) have h: "ascii (hd rest)" by simp
        have "(c # t @ rest) ! length A = hd rest" using \<open>rest \<noteq> []\<close> Cons
          by (metis append_Cons hd_conv_nth nth_append_length_plus add.right_neutral Cons_eq_appendI)
        moreover have "(c # t @ rest) ! length A \<in> set (take w (c # t @ rest))"
          using wl rs by (metis in_set_conv_nth length_take min.absorb2 nth_take)
        ultimately show False using rs False h by auto
      qed
    qed
    have k0: "tryMatch p (A @ rest) pos cap = None" using less.prems(3) Cons by force
    have lt: "length (drop w A) < length A" using rs Cons by simp
    have p1: "CHR 0x0A \<notin> set (drop w A)" using less.prems(1) by (meson in_set_dropD)
    have p3: "\<forall>k<length (drop w A). tryMatch p (drop k (drop w A) @ rest) (pos + w + k) cap = None"
    proof (intro allI impI)
      fix k assume "k < length (drop w A)"
      then have "k + w < length A" by simp
      with less.prems(3) have "tryMatch p (drop (k + w) A @ rest) (pos + (k + w)) cap = None" by blast
      then show "tryMatch p (drop k (drop w A) @ rest) (pos + w + k) cap = None"
        by (simp add: add.commute add.left_commute)
    qed
    have p4: "tryMatch p rest (pos + w + length (drop w A)) cap = Some m"
      using less.prems(4) wA by simp
    from less.hyps [OF lt p1 less.prems(2) p3 p4]
    have "tryMatch (StarLazy AnyCharNotNL # p) (drop w A @ rest) (pos + w) cap = Some m" .
    moreover have "drop w (A @ rest) = drop w A @ rest" using wA by simp
    then have "drop w (c # t @ rest) = drop w A @ rest" using Cons by (metis append_Cons)
    ultimately show ?thesis using k0 c Cons
      by (simp add: Lazy_Any_Cons w_def [symmetric] del: drop_Cons')
  qed
qed

lemma afterSep_eq:
  "tryMatch afterSep C pos cap =
     (if CHR 0x0A \<in> set C then None
      else Some (cap(7 \<mapsto> pos + length C, 1 \<mapsto> pos + length C)))"
  unfolding afterSep_def by (rule tail_any)

lemma logRegex_split:
  "logRegex = [Cap 0, BeginText, One (Lit 0x5B), Cap 2, StarLazy AnyCharNotNL] @ afterTimestamp"
  by (simp add: logRegex_def afterTimestamp_def afterLevel_def afterSep_def)

lemma One_LBr:
  "tryMatch (One (Lit 0x5B) # p) s pos cap =
     (case s of [] \<Rightarrow> None | c # t \<Rightarrow> if c = CHR ''['' then tryMatch p t (pos + 1) cap else None)"
  using One_Lit [of "CHR ''[''" p s pos cap] by (simp add: ascii_def)

lemma One_RBr:
  "tryMatch (One (Lit 0x5D) # p) s pos cap =
     (case s of [] \<Rightarrow> None | c # t \<Rightarrow> if c = CHR '']'' then tryMatch p t (pos + 1) cap else None)"
  using One_Lit [of "CHR '']''" p s pos cap] by (simp add: ascii_def)

lemma sep_sound:
  assumes "tryMatch (One PerlSpace # StarGreedy PerlSpace # p) s pos cap = Some m"
  shows "\<exists>ws s'. s = ws @ s' \<and> ws \<noteq> [] \<and> list_all perlSpace ws
           \<and> tryMatch p s' (pos + length ws) cap = Some m"
proof -
  from assms obtain c t where s: "s = c # t" "perlSpace c"
    and g: "tryMatch (StarGreedy PerlSpace # p) t (pos + 1) cap = Some m"
    by (auto simp: One_Space split: list.splits if_splits)
  from greedy_space_sound [OF g] obtain ws s' where
    "t = ws @ s'" "list_all perlSpace ws" "tryMatch p s' (pos + 1 + length ws) cap = Some m"
    by blast
  with s have "s = (c # ws) @ s' \<and> c # ws \<noteq> [] \<and> list_all perlSpace (c # ws)
      \<and> tryMatch p s' (pos + length (c # ws)) cap = Some m" by simp
  then show ?thesis by blast
qed

lemma sep_first:
  assumes "ws \<noteq> []" "list_all perlSpace ws" "s' = [] \<or> \<not> perlSpace (hd s')"
      and "tryMatch p s' (pos + length ws) cap = Some m"
  shows "tryMatch (One PerlSpace # StarGreedy PerlSpace # p) (ws @ s') pos cap = Some m"
proof -
  from assms(1) obtain c t where ws: "ws = c # t" by (cases ws) auto
  with assms have "list_all perlSpace t" "perlSpace c"
    "tryMatch p s' (pos + 1 + length t) cap = Some m" by simp_all
  with greedy_space_first [of t s' p "pos + 1" cap m] assms(3)
  have "tryMatch (StarGreedy PerlSpace # p) (t @ s') (pos + 1) cap = Some m" by simp
  with ws \<open>perlSpace c\<close> show ?thesis by (simp add: One_Space)
qed

lemma afterLevel_sound:
  assumes "tryMatch afterLevel s pos cap = Some m"
  shows "\<exists>ws C. s = '']'' @ ws @ C \<and> ws \<noteq> [] \<and> list_all perlSpace ws \<and> CHR 0x0A \<notin> set C
           \<and> m = cap(5 \<mapsto> pos, 6 \<mapsto> pos + 1 + length ws,
                      7 \<mapsto> pos + length s, 1 \<mapsto> pos + length s)"
proof -
  from assms obtain t where s: "s = CHR '']'' # t"
    and g: "tryMatch (One PerlSpace # StarGreedy PerlSpace # Cap 6 # afterSep) t (pos + 1)
              (cap(5 \<mapsto> pos)) = Some m"
    by (auto simp: afterLevel_def One_RBr split: list.splits if_splits)
  from sep_sound [OF g] obtain ws C where
    t: "t = ws @ C" "ws \<noteq> []" "list_all perlSpace ws"
    and r: "tryMatch (Cap 6 # afterSep) C (pos + 1 + length ws) (cap(5 \<mapsto> pos)) = Some m"
    by blast
  from r have "CHR 0x0A \<notin> set C"
    and "m = cap(5 \<mapsto> pos, 6 \<mapsto> pos + 1 + length ws,
                 7 \<mapsto> pos + 1 + length ws + length C, 1 \<mapsto> pos + 1 + length ws + length C)"
    by (auto simp: afterSep_eq split: if_splits)
  with s t have "s = '']'' @ ws @ C \<and> ws \<noteq> [] \<and> list_all perlSpace ws \<and> CHR 0x0A \<notin> set C
           \<and> m = cap(5 \<mapsto> pos, 6 \<mapsto> pos + 1 + length ws,
                      7 \<mapsto> pos + length s, 1 \<mapsto> pos + length s)"
    by (simp add: add.assoc)
  then show ?thesis by blast
qed

lemma afterLevel_first:
  assumes "ws \<noteq> []" "list_all perlSpace ws" "CHR 0x0A \<notin> set C" "C = [] \<or> \<not> perlSpace (hd C)"
  shows "tryMatch afterLevel ('']'' @ ws @ C) pos cap
           = Some (cap(5 \<mapsto> pos, 6 \<mapsto> pos + 1 + length ws,
                       7 \<mapsto> pos + 1 + length ws + length C, 1 \<mapsto> pos + 1 + length ws + length C))"
proof -
  have "tryMatch (Cap 6 # afterSep) C (pos + 1 + length ws) (cap(5 \<mapsto> pos))
        = Some (cap(5 \<mapsto> pos, 6 \<mapsto> pos + 1 + length ws,
                       7 \<mapsto> pos + 1 + length ws + length C, 1 \<mapsto> pos + 1 + length ws + length C))"
    using assms(3) by (simp add: afterSep_eq)
  from sep_first [OF assms(1,2,4) this]
  show ?thesis by (simp add: afterLevel_def One_RBr)
qed

lemma afterLevel_tailShape: "tryMatch afterLevel s pos cap = Some m \<Longrightarrow> tailShape s"
  using afterLevel_sound [of s pos cap m] unfolding tailShape_def by blast

lemma afterTimestamp_sound:
  assumes "tryMatch afterTimestamp s pos cap = Some m"
  shows "\<exists>ws1 B ws2 C. s = '']'' @ ws1 @ ''['' @ B @ '']'' @ ws2 @ C
           \<and> ws1 \<noteq> [] \<and> list_all perlSpace ws1 \<and> ws2 \<noteq> [] \<and> list_all perlSpace ws2
           \<and> CHR 0x0A \<notin> set B \<and> CHR 0x0A \<notin> set C
           \<and> m = cap(3 \<mapsto> pos, 4 \<mapsto> pos + 2 + length ws1,
                      5 \<mapsto> pos + 2 + length ws1 + length B,
                      6 \<mapsto> pos + 3 + length ws1 + length B + length ws2,
                      7 \<mapsto> pos + length s, 1 \<mapsto> pos + length s)"
proof -
  from assms obtain t where s: "s = CHR '']'' # t"
    and g: "tryMatch (One PerlSpace # StarGreedy PerlSpace # One (Lit 0x5B) # Cap 4 #
                StarLazy AnyCharNotNL # afterLevel) t (pos + 1) (cap(3 \<mapsto> pos)) = Some m"
    by (auto simp: afterTimestamp_def One_RBr split: list.splits if_splits)
  from sep_sound [OF g] obtain ws1 s1 where
    t: "t = ws1 @ s1" "ws1 \<noteq> []" "list_all perlSpace ws1"
    and r: "tryMatch (One (Lit 0x5B) # Cap 4 # StarLazy AnyCharNotNL # afterLevel) s1
              (pos + 1 + length ws1) (cap(3 \<mapsto> pos)) = Some m"
    by blast
  from r obtain s2 where s1: "s1 = CHR ''['' # s2"
    and l: "tryMatch (StarLazy AnyCharNotNL # afterLevel) s2 (pos + 1 + length ws1 + 1)
              (cap(3 \<mapsto> pos, 4 \<mapsto> pos + 1 + length ws1 + 1)) = Some m"
    by (auto simp: One_LBr split: list.splits if_splits)
  from lazy_sound [OF l] obtain B s3 where
    s2: "s2 = B @ s3" "CHR 0x0A \<notin> set B"
    and a: "tryMatch afterLevel s3 (pos + 1 + length ws1 + 1 + length B)
              (cap(3 \<mapsto> pos, 4 \<mapsto> pos + 1 + length ws1 + 1)) = Some m"
    by blast
  from afterLevel_sound [OF a] obtain ws2 C where
    s3: "s3 = '']'' @ ws2 @ C" "ws2 \<noteq> []" "list_all perlSpace ws2" "CHR 0x0A \<notin> set C"
    and m: "m = (cap(3 \<mapsto> pos, 4 \<mapsto> pos + 1 + length ws1 + 1))
                 (5 \<mapsto> pos + 1 + length ws1 + 1 + length B,
                  6 \<mapsto> pos + 1 + length ws1 + 1 + length B + 1 + length ws2,
                  7 \<mapsto> pos + 1 + length ws1 + 1 + length B + length s3,
                  1 \<mapsto> pos + 1 + length ws1 + 1 + length B + length s3)"
    by blast
  have len: "pos + 1 + length ws1 + 1 + length B + length s3 = pos + length s"
    using s t s1 s2 by simp
  have "s = '']'' @ ws1 @ ''['' @ B @ '']'' @ ws2 @ C" using s t s1 s2 s3 by simp
  moreover have "m = cap(3 \<mapsto> pos, 4 \<mapsto> pos + 2 + length ws1,
                      5 \<mapsto> pos + 2 + length ws1 + length B,
                      6 \<mapsto> pos + 3 + length ws1 + length B + length ws2,
                      7 \<mapsto> pos + length s, 1 \<mapsto> pos + length s)"
    unfolding m len by (simp add: add.commute add.left_commute numeral_3_eq_3 numeral_2_eq_2)
  ultimately show ?thesis using t s2 s3 by blast
qed

lemma afterTimestamp_midShape: "tryMatch afterTimestamp s pos cap = Some m \<Longrightarrow> midShape s"
proof -
  assume "tryMatch afterTimestamp s pos cap = Some m"
  from afterTimestamp_sound [OF this] obtain ws1 B ws2 C where
    h: "s = '']'' @ ws1 @ ''['' @ B @ '']'' @ ws2 @ C" "ws1 \<noteq> []" "list_all perlSpace ws1"
       "ws2 \<noteq> []" "list_all perlSpace ws2" "CHR 0x0A \<notin> set B" "CHR 0x0A \<notin> set C"
    by blast
  then have "tailShape ('']'' @ ws2 @ C)" unfolding tailShape_def by blast
  with h show ?thesis unfolding midShape_def by blast
qed

lemma afterTimestamp_first:
  assumes "ws1 \<noteq> []" "list_all perlSpace ws1" "CHR 0x0A \<notin> set B"
      and "ws2 \<noteq> []" "list_all perlSpace ws2" "CHR 0x0A \<notin> set C"
      and "C = [] \<or> \<not> perlSpace (hd C)"
      and minB: "\<forall>k<length B. \<not> tailShape (drop k B @ '']'' @ ws2 @ C)"
  shows "tryMatch afterTimestamp ('']'' @ ws1 @ ''['' @ B @ '']'' @ ws2 @ C) pos cap
         = Some (cap(3 \<mapsto> pos, 4 \<mapsto> pos + 2 + length ws1,
                      5 \<mapsto> pos + 2 + length ws1 + length B,
                      6 \<mapsto> pos + 3 + length ws1 + length B + length ws2,
                      7 \<mapsto> pos + 3 + length ws1 + length B + length ws2 + length C,
                      1 \<mapsto> pos + 3 + length ws1 + length B + length ws2 + length C))"
proof -
  let ?cap4 = "cap(3 \<mapsto> pos, 4 \<mapsto> pos + 2 + length ws1)"
  let ?q = "pos + 2 + length ws1"
  let ?m = "cap(3 \<mapsto> pos, 4 \<mapsto> pos + 2 + length ws1,
                      5 \<mapsto> pos + 2 + length ws1 + length B,
                      6 \<mapsto> pos + 3 + length ws1 + length B + length ws2,
                      7 \<mapsto> pos + 3 + length ws1 + length B + length ws2 + length C,
                      1 \<mapsto> pos + 3 + length ws1 + length B + length ws2 + length C)"
  have a: "tryMatch afterLevel ('']'' @ ws2 @ C) (?q + length B) ?cap4 = Some ?m"
    using afterLevel_first [OF assms(4,5,6,7), of "?q + length B" ?cap4]
    by (simp add: add.commute add.left_commute numeral_3_eq_3 numeral_2_eq_2)
  have n: "\<forall>k<length B. tryMatch afterLevel (drop k B @ '']'' @ ws2 @ C) (?q + k) ?cap4 = None"
  proof (intro allI impI)
    fix k assume k: "k < length B"
    show "tryMatch afterLevel (drop k B @ '']'' @ ws2 @ C) (?q + k) ?cap4 = None"
    proof (cases "tryMatch afterLevel (drop k B @ '']'' @ ws2 @ C) (?q + k) ?cap4")
      case None then show ?thesis .
    next
      case (Some m')
      from afterLevel_tailShape [OF Some] minB k show ?thesis by blast
    qed
  qed
  have l: "tryMatch (StarLazy AnyCharNotNL # afterLevel) (B @ '']'' @ ws2 @ C) ?q ?cap4 = Some ?m"
    by (rule lazy_first [OF assms(3) _ n a]) (simp add: ascii_def)
  have b: "tryMatch (One (Lit 0x5B) # Cap 4 # StarLazy AnyCharNotNL # afterLevel)
             (''['' @ B @ '']'' @ ws2 @ C) (pos + 1 + length ws1) (cap(3 \<mapsto> pos)) = Some ?m"
    using l by (simp add: One_LBr numeral_3_eq_3 numeral_2_eq_2)
  have "tryMatch (One PerlSpace # StarGreedy PerlSpace # One (Lit 0x5B) # Cap 4 #
                StarLazy AnyCharNotNL # afterLevel) (ws1 @ ''['' @ B @ '']'' @ ws2 @ C) (pos + 1)
          (cap(3 \<mapsto> pos)) = Some ?m"
    by (rule sep_first [OF assms(1,2)]) (use b in \<open>simp_all add: perlSpace_def add.assoc\<close>)
  then show ?thesis by (simp add: afterTimestamp_def One_RBr)
qed

lemma logRegex_sound:
  assumes "tryMatch logRegex line pos Map.empty = Some m"
  shows "pos = 0 \<and> (\<exists>A ws1 B ws2 C. line = ''['' @ A @ '']'' @ ws1 @ ''['' @ B @ '']'' @ ws2 @ C
           \<and> ws1 \<noteq> [] \<and> list_all perlSpace ws1 \<and> ws2 \<noteq> [] \<and> list_all perlSpace ws2
           \<and> CHR 0x0A \<notin> set A \<and> CHR 0x0A \<notin> set B \<and> CHR 0x0A \<notin> set C
           \<and> m = matchCaps A ws1 B ws2 C)"
proof -
  from assms have p0: "pos = 0" by (auto simp: logRegex_split split: if_splits)
  from assms p0 obtain s1 where line: "line = CHR ''['' # s1"
    and l: "tryMatch (StarLazy AnyCharNotNL # afterTimestamp) s1 1 [0 \<mapsto> 0, 2 \<mapsto> 1] = Some m"
    by (auto simp: logRegex_split One_LBr split: list.splits if_splits)
  from lazy_sound [OF l] obtain A s2 where
    s1: "s1 = A @ s2" "CHR 0x0A \<notin> set A"
    and a: "tryMatch afterTimestamp s2 (1 + length A) [0 \<mapsto> 0, 2 \<mapsto> 1] = Some m"
    by blast
  from afterTimestamp_sound [OF a] obtain ws1 B ws2 C where
    s2: "s2 = '']'' @ ws1 @ ''['' @ B @ '']'' @ ws2 @ C"
    "ws1 \<noteq> []" "list_all perlSpace ws1" "ws2 \<noteq> []" "list_all perlSpace ws2"
    "CHR 0x0A \<notin> set B" "CHR 0x0A \<notin> set C"
    and m: "m = [0 \<mapsto> 0, 2 \<mapsto> 1](3 \<mapsto> 1 + length A, 4 \<mapsto> 1 + length A + 2 + length ws1,
                      5 \<mapsto> 1 + length A + 2 + length ws1 + length B,
                      6 \<mapsto> 1 + length A + 3 + length ws1 + length B + length ws2,
                      7 \<mapsto> 1 + length A + length s2, 1 \<mapsto> 1 + length A + length s2)"
    by blast
  have "m = matchCaps A ws1 B ws2 C"
    unfolding m matchCaps_def s2(1)
    by (simp add: add.commute add.left_commute numeral_3_eq_3 numeral_2_eq_2 eval_nat_numeral)
  moreover have "line = ''['' @ A @ '']'' @ ws1 @ ''['' @ B @ '']'' @ ws2 @ C"
    using line s1 s2 by simp
  ultimately show ?thesis using p0 s1 s2 by blast
qed

lemma logRegex_first:
  assumes "ws1 \<noteq> []" "list_all perlSpace ws1" "ws2 \<noteq> []" "list_all perlSpace ws2"
      and "CHR 0x0A \<notin> set A" "CHR 0x0A \<notin> set B" "CHR 0x0A \<notin> set C"
      and "C = [] \<or> \<not> perlSpace (hd C)"
      and minB: "\<forall>k<length B. \<not> tailShape (drop k B @ '']'' @ ws2 @ C)"
      and minA: "\<forall>k<length A. \<not> midShape (drop k A @ '']'' @ ws1 @ ''['' @ B @ '']'' @ ws2 @ C)"
  shows "tryMatch logRegex (''['' @ A @ '']'' @ ws1 @ ''['' @ B @ '']'' @ ws2 @ C) 0 Map.empty
           = Some (matchCaps A ws1 B ws2 C)"
proof -
  let ?rest = "'']'' @ ws1 @ ''['' @ B @ '']'' @ ws2 @ C"
  let ?cap2 = "[0 \<mapsto> 0, 2 \<mapsto> (1::nat)]"
  from afterTimestamp_first [OF assms(1,2,6,3,4,7,8) minB, of "1 + length A" ?cap2]
  have a: "tryMatch afterTimestamp ?rest (1 + length A) ?cap2 = Some (matchCaps A ws1 B ws2 C)"
    by (simp add: matchCaps_def add.commute add.left_commute numeral_3_eq_3 numeral_2_eq_2
          eval_nat_numeral)
  have n: "\<forall>k<length A. tryMatch afterTimestamp (drop k A @ ?rest) (1 + k) ?cap2 = None"
  proof (intro allI impI)
    fix k assume k: "k < length A"
    show "tryMatch afterTimestamp (drop k A @ ?rest) (1 + k) ?cap2 = None"
    proof (cases "tryMatch afterTimestamp (drop k A @ ?rest) (1 + k) ?cap2")
      case None then show ?thesis .
    next
      case (Some m')
      from afterTimestamp_midShape [OF Some] minA k show ?thesis by blast
    qed
  qed
  have "tryMatch (StarLazy AnyCharNotNL # afterTimestamp) (A @ ?rest) 1 ?cap2
          = Some (matchCaps A ws1 B ws2 C)"
    by (rule lazy_first [OF assms(5) _ n a]) (simp add: ascii_def)
  then show ?thesis by (simp add: logRegex_split One_LBr)
qed

lemma logRegex_not_at_start: "0 < pos \<Longrightarrow> tryMatch logRegex s pos cap = None"
  by (simp add: logRegex_def)

lemma search_after_start: "0 < pos \<Longrightarrow> search logRegex s pos = None"
proof (induction "length s" arbitrary: s pos rule: less_induct)
  case less
  show ?case
  proof (cases s)
    case Nil
    with less.prems show ?thesis by (subst search.simps) (simp add: logRegex_not_at_start)
  next
    case (Cons c t)
    have "length (drop (snd (DecodeRune s)) s) < length s"
      using width_bounds [of c t] Cons by simp
    from less.hyps [OF this, of "pos + snd (DecodeRune s)"] less.prems
    have "search logRegex (drop (snd (DecodeRune s)) s) (pos + snd (DecodeRune s)) = None" by simp
    with less.prems show ?thesis by (subst search.simps) (simp add: logRegex_not_at_start)
  qed
qed

lemma search_logRegex: "search logRegex s 0 = tryMatch logRegex s 0 Map.empty"
proof (cases s)
  case Nil
  then show ?thesis by (subst search.simps) (simp split: option.splits)
next
  case (Cons c t)
  have "0 < snd (DecodeRune s)" using width_bounds [of c t] Cons by simp
  from search_after_start [OF this, of "drop (snd (DecodeRune s)) s"]
  show ?thesis by (subst search.simps) (simp split: option.splits)
qed

lemma submatches:
  assumes "line = ''['' @ A @ '']'' @ ws1 @ ''['' @ B @ '']'' @ ws2 @ C"
  shows "map (submatch line (matchCaps A ws1 B ws2 C)) [0..<3 + 1] = [line, A, B, C]"
proof -
  let ?m = "matchCaps A ws1 B ws2 C"
  have len: "length line = 4 + length A + length ws1 + length B + length ws2 + length C"
    using assms by simp
  have 0: "submatch line ?m 0 = line"
    by (simp add: submatch_def matchCaps_def len [symmetric])
  have d1: "drop 1 line = A @ '']'' @ ws1 @ ''['' @ B @ '']'' @ ws2 @ C" using assms by simp
  have 1: "submatch line ?m 1 = A"
    using d1 by (simp add: submatch_def matchCaps_def)
  have "line = (''['' @ A @ '']'' @ ws1 @ ''['') @ (B @ '']'' @ ws2 @ C)" using assms by simp
  then have "drop (length (''['' @ A @ '']'' @ ws1 @ ''['')) line = B @ '']'' @ ws2 @ C"
    by (metis append_eq_conv_conj)
  then have d2: "drop (3 + length A + length ws1) line = B @ '']'' @ ws2 @ C"
    by (simp add: add.commute add.left_commute eval_nat_numeral)
  have 2: "submatch line ?m 2 = B"
    using d2 by (simp add: submatch_def matchCaps_def)
  have "line = (''['' @ A @ '']'' @ ws1 @ ''['' @ B @ '']'' @ ws2) @ C" using assms by simp
  then have "drop (length (''['' @ A @ '']'' @ ws1 @ ''['' @ B @ '']'' @ ws2)) line = C"
    by (metis append_eq_conv_conj)
  then have d3: "drop (4 + length A + length ws1 + length B + length ws2) line = C"
    by (simp add: add.commute add.left_commute eval_nat_numeral)
  have 3: "submatch line ?m 3 = C"
    using d3 by (simp add: submatch_def matchCaps_def)
  have "[0..<3 + 1] = [0, 1, 2, 3::nat]" by (simp add: upt_rec)
  with 0 1 2 3 show ?thesis by simp
qed

lemma FindStringSubmatch_sound:
  assumes "FindStringSubmatch logRegex 3 line \<noteq> []"
  shows "\<exists>A B C. lineMatch line A B C \<and> FindStringSubmatch logRegex 3 line = [line, A, B, C]"
proof -
  from assms obtain m where m: "tryMatch logRegex line 0 Map.empty = Some m"
    by (auto simp: FindStringSubmatch_def search_logRegex split: option.splits)
  from logRegex_sound [OF m] obtain A ws1 B ws2 C where
    h: "line = ''['' @ A @ '']'' @ ws1 @ ''['' @ B @ '']'' @ ws2 @ C"
       "ws1 \<noteq> []" "list_all perlSpace ws1" "ws2 \<noteq> []" "list_all perlSpace ws2"
       "CHR 0x0A \<notin> set A" "CHR 0x0A \<notin> set B" "CHR 0x0A \<notin> set C"
       "m = matchCaps A ws1 B ws2 C"
    by blast
  have "lineMatch line A B C" unfolding lineMatch_def using h by blast
  moreover have "FindStringSubmatch logRegex 3 line = [line, A, B, C]"
    using m h(9) submatches [OF h(1)] by (simp add: FindStringSubmatch_def search_logRegex)
  ultimately show ?thesis by blast
qed

lemma leftmostFirst_Submatch:
  assumes "leftmostFirst line A B C"
  shows "FindStringSubmatch logRegex 3 line = [line, A, B, C]"
proof -
  from assms have lm: "lineMatch line A B C"
    and mA: "\<And>A' B' C'. lineMatch line A' B' C' \<Longrightarrow> length A \<le> length A'"
    and mB: "\<And>B' C'. lineMatch line A B' C' \<Longrightarrow> length B \<le> length B'"
    and mC: "\<And>C'. lineMatch line A B C' \<Longrightarrow> length C \<le> length C'"
    unfolding leftmostFirst_def by blast+
  from lm obtain ws1 ws2 where
    h: "line = ''['' @ A @ '']'' @ ws1 @ ''['' @ B @ '']'' @ ws2 @ C"
       "ws1 \<noteq> []" "ws2 \<noteq> []" "list_all perlSpace ws1" "list_all perlSpace ws2"
       "CHR 0x0A \<notin> set A" "CHR 0x0A \<notin> set B" "CHR 0x0A \<notin> set C"
    unfolding lineMatch_def by blast
  have cC: "C = [] \<or> \<not> perlSpace (hd C)"
  proof (rule ccontr)
    assume "\<not> (C = [] \<or> \<not> perlSpace (hd C))"
    then obtain c C' where C: "C = c # C'" "perlSpace c" by (cases C) auto
    have "lineMatch line A B C'"
      unfolding lineMatch_def
    proof (intro exI conjI)
      show "line = ''['' @ A @ '']'' @ ws1 @ ''['' @ B @ '']'' @ (ws2 @ [c]) @ C'"
        using h(1) C by simp
    qed (use h C in auto)
    from mC [OF this] C show False by simp
  qed
  have minB: "\<forall>k<length B. \<not> tailShape (drop k B @ '']'' @ ws2 @ C)"
  proof (intro allI impI notI)
    fix k assume k: "k < length B" and "tailShape (drop k B @ '']'' @ ws2 @ C)"
    then obtain ws C' where t: "drop k B @ '']'' @ ws2 @ C = '']'' @ ws @ C'"
      "ws \<noteq> []" "list_all perlSpace ws" "CHR 0x0A \<notin> set C'"
      unfolding tailShape_def by blast
    have "B @ '']'' @ ws2 @ C = take k B @ '']'' @ ws @ C'"
      using t(1) by (metis append_assoc append_take_drop_id)
    then have l: "line = ''['' @ A @ '']'' @ ws1 @ ''['' @ take k B @ '']'' @ ws @ C'"
      using h(1) by simp
    have "CHR 0x0A \<notin> set (take k B)" using h(7) by (meson in_set_takeD)
    with l t h have "lineMatch line A (take k B) C'" unfolding lineMatch_def by blast
    from mB [OF this] k show False by simp
  qed
  have minA: "\<forall>k<length A. \<not> midShape (drop k A @ '']'' @ ws1 @ ''['' @ B @ '']'' @ ws2 @ C)"
  proof (intro allI impI notI)
    fix k assume k: "k < length A"
      and "midShape (drop k A @ '']'' @ ws1 @ ''['' @ B @ '']'' @ ws2 @ C)"
    then obtain ws B' ws' C' where
      t: "drop k A @ '']'' @ ws1 @ ''['' @ B @ '']'' @ ws2 @ C
            = '']'' @ ws @ ''['' @ B' @ '']'' @ ws' @ C'"
      "ws \<noteq> []" "list_all perlSpace ws" "CHR 0x0A \<notin> set B'"
      "ws' \<noteq> []" "list_all perlSpace ws'" "CHR 0x0A \<notin> set C'"
      unfolding midShape_def tailShape_def by blast
    have "A @ '']'' @ ws1 @ ''['' @ B @ '']'' @ ws2 @ C
            = take k A @ '']'' @ ws @ ''['' @ B' @ '']'' @ ws' @ C'"
      using t(1) by (metis append_assoc append_take_drop_id)
    then have l: "line = ''['' @ take k A @ '']'' @ ws @ ''['' @ B' @ '']'' @ ws' @ C'"
      using h(1) by simp
    have "CHR 0x0A \<notin> set (take k A)" using h(6) by (meson in_set_takeD)
    with l t have "lineMatch line (take k A) B' C'" unfolding lineMatch_def by blast
    from mA [OF this] k show False by simp
  qed
  from logRegex_first [OF h(2,4,3,5,6,7,8) cC minB minA] h(1)
  have "tryMatch logRegex line 0 Map.empty = Some (matchCaps A ws1 B ws2 C)" by simp
  with submatches [OF h(1)] show ?thesis
    by (simp add: FindStringSubmatch_def search_logRegex)
qed

lemma lineMatch_has_leftmostFirst:
  assumes "lineMatch line A0 B0 C0"
  shows "\<exists>A B C. leftmostFirst line A B C"
proof -
  from assms have "\<exists>t. lineMatch line (fst t) (fst (snd t)) (snd (snd t))"
    by (intro exI [of _ "(A0, B0, C0)"]) simp
  from ex_has_least_nat [of "\<lambda>t. lineMatch line (fst t) (fst (snd t)) (snd (snd t))" _ "\<lambda>t. length (fst t)"] this
  obtain A B1 C1 where a: "lineMatch line A B1 C1"
    and mA: "\<forall>A' B' C'. lineMatch line A' B' C' \<longrightarrow> length A \<le> length A'"
    by (metis fst_conv snd_conv)
  from a have "\<exists>t. lineMatch line A (fst t) (snd t)" by (intro exI [of _ "(B1, C1)"]) simp
  from ex_has_least_nat [of "\<lambda>t. lineMatch line A (fst t) (snd t)" _ "\<lambda>t. length (fst t)"] this
  obtain B C2 where b: "lineMatch line A B C2"
    and mB: "\<forall>B' C'. lineMatch line A B' C' \<longrightarrow> length B \<le> length B'"
    by (metis fst_conv snd_conv)
  from ex_has_least_nat [of "\<lambda>C. lineMatch line A B C" C2 length] b
  obtain C where c: "lineMatch line A B C"
    and mC: "\<forall>C'. lineMatch line A B C' \<longrightarrow> length C \<le> length C'"
    by blast
  from c mA mB mC have "leftmostFirst line A B C" unfolding leftmostFirst_def by blast
  then show ?thesis by blast
qed

lemma first_occurrence_le:
  assumes "x \<notin> set A" and "A @ x # r = A' @ x # r'"
  shows "length A \<le> length A'"
proof (rule ccontr)
  assume "\<not> length A \<le> length A'"
  then have lt: "length A' < length A" by simp
  have e: "(A @ x # r) ! length A' = (A' @ x # r') ! length A'"
    using assms(2) by (rule arg_cong)
  have "(A @ x # r) ! length A' = A ! length A'" using lt by (simp add: nth_append)
  moreover have "(A' @ x # r') ! length A' = x" by simp
  ultimately have "A ! length A' = x" using e by (simp only:)
  with lt have "x \<in> set A" by (metis nth_mem)
  with assms(1) show False by simp
qed

lemma first_occurrence_eq:
  assumes "x \<notin> set A" and "x \<notin> set A'" and "A @ x # r = A' @ x # r'"
  shows "A = A' \<and> r = r'"
proof -
  have "length A = length A'"
    using first_occurrence_le [OF assms(1,3)] first_occurrence_le [OF assms(2) assms(3) [symmetric]]
    by (rule le_antisym)
  with assms(3) show ?thesis by (metis append_eq_append_conv list.inject)
qed

lemma not_perlSpace_lbr: "\<not> perlSpace (CHR ''['')"
  by (simp add: perlSpace_def)

lemma perlSpace_not_bracket: "list_all perlSpace ws \<Longrightarrow> CHR ''['' \<notin> set ws"
  using not_perlSpace_lbr by (metis list_all_iff)

lemma leftmostFirst_simple:
  assumes nbA: "CHR '']'' \<notin> set A" and nbB: "CHR '']'' \<notin> set B"
      and nl: "CHR 0x0A \<notin> set A" "CHR 0x0A \<notin> set B" "CHR 0x0A \<notin> set C"
      and ws: "ws1 \<noteq> []" "list_all perlSpace ws1" "ws2 \<noteq> []" "list_all perlSpace ws2"
      and cC: "C = [] \<or> \<not> perlSpace (hd C)"
  shows "leftmostFirst (''['' @ A @ '']'' @ ws1 @ ''['' @ B @ '']'' @ ws2 @ C) A B C"
proof -
  let ?line = "''['' @ A @ '']'' @ ws1 @ ''['' @ B @ '']'' @ ws2 @ C"
  have lm: "lineMatch ?line A B C"
    unfolding lineMatch_def using nl ws by (intro exI [of _ ws1] exI [of _ ws2]) simp
  have mA: "length A \<le> length A'" if "lineMatch ?line A' B' C'" for A' B' C'
  proof -
    from that obtain v1 v2 where "?line = ''['' @ A' @ '']'' @ v1 @ ''['' @ B' @ '']'' @ v2 @ C'"
      unfolding lineMatch_def by blast
    then have "A @ CHR '']'' # (ws1 @ ''['' @ B @ '']'' @ ws2 @ C)
               = A' @ CHR '']'' # (v1 @ ''['' @ B' @ '']'' @ v2 @ C')" by simp
    from first_occurrence_le [OF nbA this] show ?thesis .
  qed
  have mB: "length B \<le> length B'" if "lineMatch ?line A B' C'" for B' C'
  proof -
    from that obtain v1 v2 where e: "?line = ''['' @ A @ '']'' @ v1 @ ''['' @ B' @ '']'' @ v2 @ C'"
      and v: "list_all perlSpace v1"
      unfolding lineMatch_def by blast
    from e have "ws1 @ CHR ''['' # (B @ '']'' @ ws2 @ C) = v1 @ CHR ''['' # (B' @ '']'' @ v2 @ C')"
      by simp
    from first_occurrence_eq [OF perlSpace_not_bracket [OF ws(2)] perlSpace_not_bracket [OF v] this]
    have "B @ CHR '']'' # (ws2 @ C) = B' @ CHR '']'' # (v2 @ C')" by simp
    from first_occurrence_le [OF nbB this] show ?thesis .
  qed
  have mC: "length C \<le> length C'" if "lineMatch ?line A B C'" for C'
  proof -
    from that obtain v1 v2 where e: "?line = ''['' @ A @ '']'' @ v1 @ ''['' @ B @ '']'' @ v2 @ C'"
      and v: "list_all perlSpace v1" "list_all perlSpace v2"
      unfolding lineMatch_def by blast
    from e have "ws1 @ CHR ''['' # (B @ '']'' @ ws2 @ C) = v1 @ CHR ''['' # (B @ '']'' @ v2 @ C')"
      by simp
    from first_occurrence_eq [OF perlSpace_not_bracket [OF ws(2)] perlSpace_not_bracket [OF v(1)] this]
    have eq: "ws2 @ C = v2 @ C'" by simp
    show ?thesis
    proof (rule ccontr)
      assume "\<not> length C \<le> length C'"
      moreover from eq have ln: "length ws2 + length C = length v2 + length C'"
        by (metis length_append)
      ultimately have lt: "length ws2 < length v2" by simp
      with ln have "C \<noteq> []" by auto
      have "(ws2 @ C) ! length ws2 = hd C" using \<open>C \<noteq> []\<close> by (simp add: hd_conv_nth nth_append)
      moreover have "(v2 @ C') ! length ws2 = v2 ! length ws2" using lt by (simp add: nth_append)
      ultimately have "hd C = v2 ! length ws2" using eq by simp
      with v(2) lt have "perlSpace (hd C)" by (simp add: list_all_length)
      with cC \<open>C \<noteq> []\<close> show False by simp
    qed
  qed
  show ?thesis
    unfolding leftmostFirst_def
    by (intro conjI allI impI; (rule lm | erule mA | erule mB | erule mC))
qed

lemma closings_append: "closings xs + closings ys \<le> closings (xs @ ys)"
proof (induction xs rule: closings.induct)
  case (1 a b r)
  then show ?case by simp
next
  case (2 a)
  then show ?case by (cases ys) simp_all
next
  case 3
  then show ?case by simp
qed

lemma closings_group:
  assumes "ws \<noteq> []" "list_all perlSpace ws"
  shows "1 + closings r \<le> closings ('']'' @ ws @ r)"
proof -
  from assms obtain w ws' where ws: "ws = w # ws'" "perlSpace w" by (cases ws) auto
  have "closings r \<le> closings ((w # ws') @ r)"
    using closings_append [of "w # ws'" r] by simp
  with ws show ?thesis by simp
qed

lemma lineMatch_necessary:
  assumes "lineMatch line A B C"
  shows "line \<noteq> [] \<and> hd line = CHR ''['' \<and> 2 \<le> closings line"
proof -
  from assms obtain ws1 ws2 where
    h: "line = ''['' @ A @ '']'' @ ws1 @ ''['' @ B @ '']'' @ ws2 @ C"
       "ws1 \<noteq> []" "ws2 \<noteq> []" "list_all perlSpace ws1" "list_all perlSpace ws2"
    unfolding lineMatch_def by blast
  have 1: "1 + closings C \<le> closings ('']'' @ ws2 @ C)" by (rule closings_group [OF h(3,5)])
  have 2: "closings ('']'' @ ws2 @ C) \<le> closings ((''['' @ B) @ '']'' @ ws2 @ C)"
    using closings_append [of "''['' @ B" "'']'' @ ws2 @ C"] by simp
  have 3: "1 + closings ((''['' @ B) @ '']'' @ ws2 @ C)
             \<le> closings ('']'' @ ws1 @ (''['' @ B) @ '']'' @ ws2 @ C)"
    by (rule closings_group [OF h(2,4)])
  have 4: "closings ('']'' @ ws1 @ (''['' @ B) @ '']'' @ ws2 @ C)
             \<le> closings ((''['' @ A) @ '']'' @ ws1 @ (''['' @ B) @ '']'' @ ws2 @ C)"
    using closings_append [of "''['' @ A" "'']'' @ ws1 @ (''['' @ B) @ '']'' @ ws2 @ C"] by simp
  have "line = (''['' @ A) @ '']'' @ ws1 @ (''['' @ B) @ '']'' @ ws2 @ C" using h(1) by simp
  with 1 2 3 4 have "2 \<le> closings line" by simp
  with h(1) show ?thesis by simp
qed

section \<open>The audit record is persisted once, whatever the exit path\<close>

lemma execs_append: "execs (xs @ ys) = execs xs @ execs ys"
  by (induction xs rule: execs.induct) auto

lemma parseHandler_body_no_exec: "execs (snd (snd (parseHandler_body env w r rec0))) = []"
  by (auto simp: parseHandler_body_def Let_def execs_append
           split: sum.splits prod.splits option.splits)

lemma Write_execErr: "Write (env\<lparr>execErr := e\<rparr>) b w = Write env b w"
  by (simp add: Write_def)

lemma http_Error_execErr:
  "http_Error (env\<lparr>execErr := e\<rparr>) w msg code = http_Error env w msg code"
  by (simp add: http_Error_def Write_execErr)

lemma parseHandler_body_execErr:
  "parseHandler_body (env\<lparr>execErr := e\<rparr>) w r rec0 = parseHandler_body env w r rec0"
  unfolding parseHandler_body_def Write_execErr http_Error_execErr by (rule refl)

text \<open>
  Claim C1. For every request, environment and response writer, and so on every exit
  path of the handler (method not allowed, body read failure, serialization failure,
  success), the trace of the call holds exactly one \<^verbatim>\<open>INSERT\<close>, and its record is the
  record as the body of the handler left it. Whether the \<^verbatim>\<open>INSERT\<close> fails or not
  (\<open>execErr\<close> set to any value \<open>e\<close>) the response writer ends in the same state: same
  status code, same headers, same body.
\<close>

theorem parseHandler_records_once:
  "execs (snd (snd (parseHandler env w r table)))
     = [fst (parseHandler_body env w r
          \<lparr>RecTimestamp = now env, RecRemoteAddr = RemoteAddr r, RequestBody = [],
           ResponseBody = [], StatusCode = StatusOK, ErrorMsg = []\<rparr>)]
   \<and> fst (parseHandler (env\<lparr>execErr := e\<rparr>) w r table) = fst (parseHandler env w r table)"
proof -
  let ?record0 = "\<lparr>RecTimestamp = now env, RecRemoteAddr = RemoteAddr r, RequestBody = [],
           ResponseBody = [], StatusCode = StatusOK, ErrorMsg = []\<rparr>"
  obtain rec w' trace where b: "parseHandler_body env w r ?record0 = (rec, w', trace)"
    by (cases "parseHandler_body env w r ?record0") auto
  from parseHandler_body_no_exec [of env w r ?record0] b have ne: "execs trace = []" by simp
  have 1: "execs (snd (snd (parseHandler env w r table))) = [rec]"
    using b ne by (simp add: parseHandler_def recordLog_def execs_append split: option.splits)
  have 2: "fst (parseHandler (env\<lparr>execErr := e\<rparr>) w r table) = fst (parseHandler env w r table)"
    by (simp add: parseHandler_def parseHandler_body_execErr split: prod.splits)
  from 1 2 b show ?thesis by simp
qed

theorem parseHandler_records_once_witness:
  "execs (snd (snd (parseHandler \<lparr>now = 7, execErr = None, writeErr = None\<rparr> NewResponseWriter
      \<lparr>Method = ''GET'', RemoteAddr = ''h'', URL_Path = ''/api/parse'', Body = Inl ''eof''\<rparr> [])))
     = [\<lparr>RecTimestamp = 7, RecRemoteAddr = ''h'', RequestBody = [], ResponseBody = [],
         StatusCode = 405, ErrorMsg = ''Method not allowed''\<rparr>]
   \<and> fst (parseHandler \<lparr>now = 7, execErr = Some ''timeout'', writeErr = None\<rparr> NewResponseWriter
      \<lparr>Method = ''GET'', RemoteAddr = ''h'', URL_Path = ''/api/parse'', Body = Inl ''eof''\<rparr> [])
     = fst (parseHandler \<lparr>now = 7, execErr = None, writeErr = None\<rparr> NewResponseWriter
      \<lparr>Method = ''GET'', RemoteAddr = ''h'', URL_Path = ''/api/parse'', Body = Inl ''eof''\<rparr> [])"
  using parseHandler_records_once [of "\<lparr>now = 7, execErr = None, writeErr = None\<rparr>"
      NewResponseWriter
      "\<lparr>Method = ''GET'', RemoteAddr = ''h'', URL_Path = ''/api/parse'', Body = Inl ''eof''\<rparr>"
      "[]" "Some ''timeout''"]
  by (simp add: parseHandler_body_def MethodPost_def StatusMethodNotAllowed_def StatusOK_def)

section \<open>A POST with an empty body\<close>

text \<open>
  Claim C2. A POST request whose body is empty is answered with status 200, and the
  record handed to \<^verbatim>\<open>recordLog\<close> has status code 200 and an empty error message. The body
  of the response, and the response body of the record, is the JSON text \<^verbatim>\<open>null\<close>, not
  \<^verbatim>\<open>[]\<close>: no line is appended to \<^verbatim>\<open>parsedData\<close>, which stays the nil slice it was
  declared as.
\<close>

theorem empty_body_POST_yields_null:
  "parseHandler \<lparr>now = t, execErr = None, writeErr = None\<rparr> NewResponseWriter
      \<lparr>Method = ''POST'', RemoteAddr = a, URL_Path = p, Body = Inr []\<rparr> table
   = (\<lparr>Header = [''Content-Type'' \<mapsto> ''application/json'',
                  ''Access-Control-Allow-Origin'' \<mapsto> ''*''],
        status = Some 200, written = ''null''\<rparr>,
      table @ [\<lparr>RecTimestamp = t, RecRemoteAddr = a, RequestBody = [],
                 ResponseBody = ''null'', StatusCode = 200, ErrorMsg = []\<rparr>],
      [Printf (ReceivedRequest a ''POST'' p), ReadAll, Printf (ReceivedLogData 0),
       Printf (SuccessfullyParsed a),
       Exec \<lparr>RecTimestamp = t, RecRemoteAddr = a, RequestBody = [],
                 ResponseBody = ''null'', StatusCode = 200, ErrorMsg = []\<rparr>])"
  by (simp add: parseHandler_def parseHandler_body_def recordLog_def Let_def MethodPost_def
      parseText_def TrimSpace_def TrimLeftSpace.simps TrimRightSpace.simps
      json_Marshal_def encodeSlice_def NewResponseWriter_def Write_def WriteHeader_def
      StatusOK_def)

section \<open>Lines of the shape [A] [B] C become structured entries\<close>

text \<open>
  Claim C3. When a line has the shape \<^verbatim>\<open>[A] [B] C\<close> (a bracket group, one or more bytes of
  \<^verbatim>\<open>\s\<close>, a second bracket group, one or more bytes of \<^verbatim>\<open>\s\<close>, and the rest of the
  line) and \<open>A\<close>, \<open>B\<close>, \<open>C\<close> are the groups as the pattern's repetitions fix them (the two
  lazy groups as short as possible, the third group all that is left after the greedy
  white space), the loop body returns the structured entry with timestamp \<open>A\<close>, level
  \<open>B\<close>, message \<open>C\<close> and an empty \<^verbatim>\<open>Raw\<close>. Nothing is asked of \<open>A\<close> and \<open>B\<close> beyond that:
  either may be empty, as the level is in the witness.
\<close>

theorem classifyLine_structured:
  assumes "leftmostFirst line A B C"
  shows "classifyLine line = \<lparr>Timestamp = A, Level = B, Message = C, Raw = []\<rparr>"
  using leftmostFirst_Submatch [OF assms] by (simp add: classifyLine_def)

theorem classifyLine_structured_witness:
  "leftmostFirst ''[T] [] M'' ''T'' [] ''M''
   \<and> classifyLine ''[T] [] M'' = \<lparr>Timestamp = ''T'', Level = [], Message = ''M'', Raw = []\<rparr>"
proof -
  have p: "CHR '']'' \<notin> set ''T''" "CHR '']'' \<notin> set ([]::string)"
    "CHR 0x0A \<notin> set ''T''" "CHR 0x0A \<notin> set ([]::string)" "CHR 0x0A \<notin> set ''M''"
    "'' '' \<noteq> []" "list_all perlSpace '' ''" "'' '' \<noteq> []" "list_all perlSpace '' ''"
    "''M'' = [] \<or> \<not> perlSpace (hd ''M'')"
    by (simp_all add: perlSpace_def)
  have h: "leftmostFirst ''[T] [] M'' ''T'' [] ''M''"
    using leftmostFirst_simple [OF p] by simp
  from classifyLine_structured [OF h] h show ?thesis by simp
qed

section \<open>All other lines become raw entries\<close>

text \<open>
  Claim C4. A line that does not have the shape \<^verbatim>\<open>[A] [B] C\<close> for any \<open>A\<close>, \<open>B\<close>, \<open>C\<close>
  becomes the raw entry: \<^verbatim>\<open>Raw\<close> is the line, byte for byte, and timestamp, level and
  message are empty. A line that has the shape becomes a structured entry with all
  three groups of one match and an empty \<^verbatim>\<open>Raw\<close>: there is no entry in between. By
  \<open>lineMatch_necessary\<close> a line has the shape only if it starts with an opening bracket
  and has two closing brackets each followed by white space, so a line without
  brackets, with one bracket group, with text before the first bracket, or with a
  bracket group not followed by white space is raw, as the four lines of the witness
  are.
\<close>

theorem classifyLine_raw:
  "(\<not> (\<exists>A B C. lineMatch line A B C)
      \<longrightarrow> classifyLine line = \<lparr>Timestamp = [], Level = [], Message = [], Raw = line\<rparr>)
   \<and> ((\<exists>A B C. lineMatch line A B C)
      \<longrightarrow> (\<exists>A B C. leftmostFirst line A B C
             \<and> classifyLine line = \<lparr>Timestamp = A, Level = B, Message = C, Raw = []\<rparr>))"
proof (intro conjI impI)
  assume n: "\<not> (\<exists>A B C. lineMatch line A B C)"
  have "FindStringSubmatch logRegex 3 line = []"
  proof (rule ccontr)
    assume "FindStringSubmatch logRegex 3 line \<noteq> []"
    from FindStringSubmatch_sound [OF this] n show False by blast
  qed
  then show "classifyLine line = \<lparr>Timestamp = [], Level = [], Message = [], Raw = line\<rparr>"
    by (simp add: classifyLine_def)
next
  assume "\<exists>A B C. lineMatch line A B C"
  then obtain A0 B0 C0 where "lineMatch line A0 B0 C0" by blast
  from lineMatch_has_leftmostFirst [OF this] obtain A B C where l: "leftmostFirst line A B C"
    by blast
  from leftmostFirst_Submatch [OF l]
  have "classifyLine line = \<lparr>Timestamp = A, Level = B, Message = C, Raw = []\<rparr>"
    by (simp add: classifyLine_def)
  with l show "\<exists>A B C. leftmostFirst line A B C
             \<and> classifyLine line = \<lparr>Timestamp = A, Level = B, Message = C, Raw = []\<rparr>"
    by blast
qed

theorem classifyLine_raw_witness:
  "\<not> (\<exists>A B C. lineMatch ''plain text'' A B C)
   \<and> classifyLine ''plain text''
       = \<lparr>Timestamp = [], Level = [], Message = [], Raw = ''plain text''\<rparr>
   \<and> \<not> (\<exists>A B C. lineMatch ''[one]'' A B C)
   \<and> classifyLine ''[one]'' = \<lparr>Timestamp = [], Level = [], Message = [], Raw = ''[one]''\<rparr>
   \<and> \<not> (\<exists>A B C. lineMatch ''x [a] [b] c'' A B C)
   \<and> classifyLine ''x [a] [b] c''
       = \<lparr>Timestamp = [], Level = [], Message = [], Raw = ''x [a] [b] c''\<rparr>
   \<and> \<not> (\<exists>A B C. lineMatch ''[a][b] c'' A B C)
   \<and> classifyLine ''[a][b] c''
       = \<lparr>Timestamp = [], Level = [], Message = [], Raw = ''[a][b] c''\<rparr>"
proof -
  have 1: "\<not> (\<exists>A B C. lineMatch ''plain text'' A B C)"
    using lineMatch_necessary [of "''plain text''"] by auto
  have 2: "\<not> (\<exists>A B C. lineMatch ''[one]'' A B C)"
    using lineMatch_necessary [of "''[one]''"] by (auto simp: perlSpace_def)
  have 3: "\<not> (\<exists>A B C. lineMatch ''x [a] [b] c'' A B C)"
    using lineMatch_necessary [of "''x [a] [b] c''"] by auto
  have 4: "\<not> (\<exists>A B C. lineMatch ''[a][b] c'' A B C)"
    using lineMatch_necessary [of "''[a][b] c''"] by (auto simp: perlSpace_def)
  from 1 2 3 4 classifyLine_raw [of "''plain text''"] classifyLine_raw [of "''[one]''"]
    classifyLine_raw [of "''x [a] [b] c''"] classifyLine_raw [of "''[a][b] c''"]
  show ?thesis by blast
qed

section \<open>One entry for each line that is not blank, in order\<close>

lemma parseLoop_eq:
  "parseLoop ls acc = acc @ map classifyLine (filter (\<lambda>l. l \<noteq> []) (map TrimSpace ls))"
  by (induction ls arbitrary: acc) (auto simp: Let_def)

text \<open>
  Claim C5. For every text, the entries are the classifications of the pieces between
  newlines, each trimmed, that are not empty after trimming, in the order of the
  pieces; so there are as many entries as pieces that are not empty after trimming, and
  a piece that is empty or only white space gives no entry.
\<close>

theorem parseText_entries:
  "parseText text = map classifyLine (filter (\<lambda>l. l \<noteq> []) (map TrimSpace (Split_nl text)))
   \<and> length (parseText text) = length (filter (\<lambda>l. TrimSpace l \<noteq> []) (Split_nl text))"
  by (simp add: parseText_def parseLoop_eq filter_map comp_def)

theorem parseText_entries_witness:
  "parseText (''a'' @ [CHR 0x0A] @ '' '' @ [CHR 0x0A, CHR 0x0A] @ ''[b] [c] d'')
     = map classifyLine [''a'', ''[b] [c] d'']
   \<and> length (parseText (''a'' @ [CHR 0x0A] @ '' '' @ [CHR 0x0A, CHR 0x0A] @ ''[b] [c] d'')) = 2"
proof -
  have s: "Split_nl (''a'' @ [CHR 0x0A] @ '' '' @ [CHR 0x0A, CHR 0x0A] @ ''[b] [c] d'')
             = [''a'', '' '', [], ''[b] [c] d'']"
    by simp
  have t: "TrimSpace ''a'' = ''a''" "TrimSpace '' '' = []" "TrimSpace [] = []"
    "TrimSpace ''[b] [c] d'' = ''[b] [c] d''"
    by code_simp+
  from parseText_entries [of "''a'' @ [CHR 0x0A] @ '' '' @ [CHR 0x0A, CHR 0x0A] @ ''[b] [c] d''"]
  show ?thesis unfolding s by (simp add: t)
qed

section \<open>Requests that are not POST\<close>

text \<open>
  Claim C6. When the method is not POST (and no header was written before the handler
  runs), the status of the response is 405; the trace of the call is the first log
  line, the log line of the rejection and the one \<^verbatim>\<open>INSERT\<close> (followed only by the log
  line of its failure when it fails), so the body is not read (no \<open>ReadAll\<close>) and nothing
  else is done; the record of the \<^verbatim>\<open>INSERT\<close> has status code 405, the error message
  \<^verbatim>\<open>Method not allowed\<close> and empty request and response bodies; and the outcome is the
  same whatever reading the body would have returned.
\<close>

theorem non_POST_rejected:
  assumes "Method r \<noteq> MethodPost" and "status w = None"
  shows "status (fst (parseHandler env w r table)) = Some StatusMethodNotAllowed
    \<and> snd (snd (parseHandler env w r table))
        = [Printf (ReceivedRequest (RemoteAddr r) (Method r) (URL_Path r)),
           Printf (RejectedRequest (RemoteAddr r) (Method r)),
           Exec \<lparr>RecTimestamp = now env, RecRemoteAddr = RemoteAddr r, RequestBody = [],
                 ResponseBody = [], StatusCode = 405, ErrorMsg = ''Method not allowed''\<rparr>]
          @ (case execErr env of None \<Rightarrow> [] | Some e \<Rightarrow> [Printf (FailedToInsert e)])
    \<and> ReadAll \<notin> set (snd (snd (parseHandler env w r table)))
    \<and> parseHandler env w (r\<lparr>Body := b\<rparr>) table = parseHandler env w r table"
  using assms
  by (auto simp: parseHandler_def parseHandler_body_def recordLog_def Let_def http_Error_def
        Write_def WriteHeader_def StatusMethodNotAllowed_def StatusOK_def
        split: option.splits)

theorem non_POST_rejected_witness:
  "Method \<lparr>Method = ''GET'', RemoteAddr = ''h'', URL_Path = ''/api/parse'', Body = Inr ''x''\<rparr> \<noteq> MethodPost
   \<and> status NewResponseWriter = None
   \<and> status (fst (parseHandler \<lparr>now = 3, execErr = None, writeErr = None\<rparr> NewResponseWriter
        \<lparr>Method = ''GET'', RemoteAddr = ''h'', URL_Path = ''/api/parse'', Body = Inr ''x''\<rparr> [])) = Some 405
   \<and> snd (snd (parseHandler \<lparr>now = 3, execErr = None, writeErr = None\<rparr> NewResponseWriter
        \<lparr>Method = ''GET'', RemoteAddr = ''h'', URL_Path = ''/api/parse'', Body = Inr ''x''\<rparr> []))
      = [Printf (ReceivedRequest ''h'' ''GET'' ''/api/parse''), Printf (RejectedRequest ''h'' ''GET''),
         Exec \<lparr>RecTimestamp = 3, RecRemoteAddr = ''h'', RequestBody = [],
                 ResponseBody = [], StatusCode = 405, ErrorMsg = ''Method not allowed''\<rparr>]"
proof -
  let ?r = "\<lparr>Method = ''GET'', RemoteAddr = ''h'', URL_Path = ''/api/parse'', Body = Inr ''x''\<rparr>"
  have h1: "Method ?r \<noteq> MethodPost" by (simp add: MethodPost_def)
  have h2: "status NewResponseWriter = None" by (simp add: NewResponseWriter_def)
  from non_POST_rejected [OF h1 h2, of "\<lparr>now = 3, execErr = None, writeErr = None\<rparr>" "[]" "Inr ''x''"] h1 h2
  show ?thesis by (simp add: StatusMethodNotAllowed_def)
qed

section \<open>Classification reads no state\<close>

lemma parseHandler_POST:
  assumes "Method r = MethodPost" and "Body r = Inr text"
  shows "parseHandler env w r table =
     (fst (Write env (encodeSlice (parseText text))
             (w\<lparr>Header := (Header w)(''Content-Type'' \<mapsto> ''application/json'',
                                      ''Access-Control-Allow-Origin'' \<mapsto> ''*'')\<rparr>)),
      recordLog env \<lparr>RecTimestamp = now env, RecRemoteAddr = RemoteAddr r, RequestBody = text,
                      ResponseBody = encodeSlice (parseText text), StatusCode = StatusOK,
                      ErrorMsg = []\<rparr>
        (table,
         [Printf (ReceivedRequest (RemoteAddr r) (Method r) (URL_Path r)), ReadAll,
          Printf (ReceivedLogData (length text))]
         @ (case writeErr env of None \<Rightarrow> [] | Some e \<Rightarrow> [Printf (ErrorWriting (RemoteAddr r) e)])
         @ [Printf (SuccessfullyParsed (RemoteAddr r))]))"
  using assms
  by (auto simp: parseHandler_def parseHandler_body_def Let_def json_Marshal_def Write_def
        split: option.splits prod.splits)

lemma execs_recordLog:
  "execs tr = [] \<Longrightarrow> execs (snd (recordLog env rec0 (table, tr))) = [rec0]"
  by (auto simp: recordLog_def execs_append split: option.splits)

text \<open>
  Claim C8. Two POST requests with the same body text, handled at any times, from any
  addresses, on any contents of the table (so in any order relative to other
  requests), whether or not the insert or the write to the client fails, store the
  same response body, the encoding of \<open>parseText\<close> of the text; and when neither write
  fails they send the same bytes. The entries depend on the text alone.
\<close>

theorem classification_reads_no_state:
  assumes "Method r1 = MethodPost" and "Body r1 = Inr text"
      and "Method r2 = MethodPost" and "Body r2 = Inr text"
  shows "map ResponseBody (execs (snd (snd (parseHandler env1 w1 r1 table1))))
           = [encodeSlice (parseText text)]
       \<and> map ResponseBody (execs (snd (snd (parseHandler env2 w2 r2 table2))))
           = [encodeSlice (parseText text)]
       \<and> (writeErr env1 = None \<and> writeErr env2 = None \<and> written w1 = written w2
            \<longrightarrow> written (fst (parseHandler env1 w1 r1 table1))
                = written (fst (parseHandler env2 w2 r2 table2)))"
proof -
  have a: "\<And>env w r table. Method r = MethodPost \<Longrightarrow> Body r = Inr text \<Longrightarrow>
     map ResponseBody (execs (snd (snd (parseHandler env w r table)))) = [encodeSlice (parseText text)]"
    by (simp add: parseHandler_POST execs_recordLog execs_append split: option.splits)
  have b: "\<And>env w r table. Method r = MethodPost \<Longrightarrow> Body r = Inr text \<Longrightarrow> writeErr env = None \<Longrightarrow>
     written (fst (parseHandler env w r table)) = written w @ encodeSlice (parseText text)"
    by (simp add: parseHandler_POST Write_def WriteHeader_def)
  from a [OF assms(1,2)] a [OF assms(3,4)] b [OF assms(1,2)] b [OF assms(3,4)]
  show ?thesis by simp
qed

theorem classification_reads_no_state_witness:
  "Method \<lparr>Method = ''POST'', RemoteAddr = ''h1'', URL_Path = ''/api/parse'', Body = Inr ''x''\<rparr>
      = MethodPost
   \<and> Method \<lparr>Method = ''POST'', RemoteAddr = ''h2'', URL_Path = ''/api/parse'', Body = Inr ''x''\<rparr>
      = MethodPost
   \<and> map ResponseBody (execs (snd (snd (parseHandler \<lparr>now = 1, execErr = None, writeErr = None\<rparr>
        NewResponseWriter
        \<lparr>Method = ''POST'', RemoteAddr = ''h1'', URL_Path = ''/api/parse'', Body = Inr ''x''\<rparr> []))))
      = [encodeSlice (parseText ''x'')]
   \<and> map ResponseBody (execs (snd (snd (parseHandler
        \<lparr>now = 9, execErr = Some ''down'', writeErr = Some ''reset''\<rparr> NewResponseWriter
        \<lparr>Method = ''POST'', RemoteAddr = ''h2'', URL_Path = ''/api/parse'', Body = Inr ''x''\<rparr>
        [\<lparr>RecTimestamp = 1, RecRemoteAddr = ''h1'', RequestBody = ''x'', ResponseBody = [],
          StatusCode = 200, ErrorMsg = []\<rparr>]))))
      = [encodeSlice (parseText ''x'')]"
proof -
  let ?r1 = "\<lparr>Method = ''POST'', RemoteAddr = ''h1'', URL_Path = ''/api/parse'', Body = Inr ''x''\<rparr>"
  let ?r2 = "\<lparr>Method = ''POST'', RemoteAddr = ''h2'', URL_Path = ''/api/parse'', Body = Inr ''x''\<rparr>"
  have m: "Method ?r1 = MethodPost" "Method ?r2 = MethodPost" by (simp_all add: MethodPost_def)
  have b: "Body ?r1 = Inr ''x''" "Body ?r2 = Inr ''x''" by simp_all
  from classification_reads_no_state [OF m(1) b(1) m(2) b(2),
      of "\<lparr>now = 1, execErr = None, writeErr = None\<rparr>" NewResponseWriter "[]"
         "\<lparr>now = 9, execErr = Some ''down'', writeErr = Some ''reset''\<rparr>" NewResponseWriter
         "[\<lparr>RecTimestamp = 1, RecRemoteAddr = ''h1'', RequestBody = ''x'', ResponseBody = [],
          StatusCode = 200, ErrorMsg = []\<rparr>]"] m
  show ?thesis by simp
qed

section \<open>Empty fields are left out of the encoded entry\<close>

lemma classifyLine_simple:
  assumes "CHR '']'' \<notin> set A" "CHR '']'' \<notin> set B"
      and "CHR 0x0A \<notin> set A" "CHR 0x0A \<notin> set B" "CHR 0x0A \<notin> set C"
      and "ws1 \<noteq> []" "list_all perlSpace ws1" "ws2 \<noteq> []" "list_all perlSpace ws2"
      and "C = [] \<or> \<not> perlSpace (hd C)"
  shows "classifyLine (''['' @ A @ '']'' @ ws1 @ ''['' @ B @ '']'' @ ws2 @ C)
           = \<lparr>Timestamp = A, Level = B, Message = C, Raw = []\<rparr>"
  using leftmostFirst_Submatch [OF leftmostFirst_simple [OF assms]]
  by (simp add: classifyLine_def)

lemma emittedFields_iff:
  "f \<in> set (emittedFields e) \<longleftrightarrow> f \<in> set (LogEntry_fields e) \<and> snd f \<noteq> []"
  by (auto simp: emittedFields_def isEmptyValue_def)

lemma enc_T: "encodeString ''T'' = [CHR 0x22, CHR ''T'', CHR 0x22]" by code_simp
lemma enc_M: "encodeString ''M'' = [CHR 0x22, CHR ''M'', CHR 0x22]" by code_simp

text \<open>
  Claim C9. Every field of \<^verbatim>\<open>LogEntry\<close> has the option \<^verbatim>\<open>omitempty\<close>: the struct encoder
  writes a field exactly when its value is not the empty string. So a line
  \<^verbatim>\<open>[T] [] M\<close> (\<open>T\<close> not empty and without closing bracket, \<open>M\<close> not empty and not
  starting with white space), which is classified with an empty level, is encoded as
  an object with the keys \<^verbatim>\<open>timestamp\<close> and \<^verbatim>\<open>message\<close> only: there is no key
  \<^verbatim>\<open>level\<close>.
\<close>

theorem omitempty_drops_empty_level:
  assumes "T \<noteq> []" "CHR '']'' \<notin> set T" "CHR 0x0A \<notin> set T"
      and "M \<noteq> []" "CHR 0x0A \<notin> set M" "\<not> perlSpace (hd M)"
  shows "(\<forall>e f. f \<in> set (emittedFields e) \<longleftrightarrow> f \<in> set (LogEntry_fields e) \<and> snd f \<noteq> [])
       \<and> classifyLine (''['' @ T @ ''] [] '' @ M)
           = \<lparr>Timestamp = T, Level = [], Message = M, Raw = []\<rparr>
       \<and> map fst (emittedFields (classifyLine (''['' @ T @ ''] [] '' @ M)))
           = [''timestamp'', ''message'']
       \<and> encodeStruct (classifyLine (''['' @ T @ ''] [] '' @ M))
           = ''{'' @ encodeField (''timestamp'', T) @ '','' @ encodeField (''message'', M) @ ''}''"
proof -
  have sp: "list_all perlSpace '' ''" "'' '' \<noteq> []" by (simp_all add: perlSpace_def)
  have "classifyLine (''['' @ T @ '']'' @ '' '' @ ''['' @ [] @ '']'' @ '' '' @ M)
          = \<lparr>Timestamp = T, Level = [], Message = M, Raw = []\<rparr>"
    by (rule classifyLine_simple) (use assms sp in simp_all)
  then have c: "classifyLine (''['' @ T @ ''] [] '' @ M)
          = \<lparr>Timestamp = T, Level = [], Message = M, Raw = []\<rparr>" by simp
  have e: "emittedFields \<lparr>Timestamp = T, Level = [], Message = M, Raw = []\<rparr>
             = [(''timestamp'', T), (''message'', M)]"
    using assms(1,4) by (simp add: emittedFields_def LogEntry_fields_def isEmptyValue_def)
  show ?thesis
    unfolding c by (simp add: e encodeStruct_def emittedFields_iff)
qed

theorem omitempty_drops_empty_level_witness:
  "classifyLine ''[T] [] M'' = \<lparr>Timestamp = ''T'', Level = [], Message = ''M'', Raw = []\<rparr>
   \<and> map fst (emittedFields (classifyLine ''[T] [] M'')) = [''timestamp'', ''message'']
   \<and> encodeStruct (classifyLine ''[T] [] M'')
       = [CHR ''{'', CHR 0x22] @ ''timestamp'' @ [CHR 0x22, CHR '':'', CHR 0x22] @ ''T''
         @ [CHR 0x22, CHR '','', CHR 0x22] @ ''message'' @ [CHR 0x22, CHR '':'', CHR 0x22] @ ''M''
         @ [CHR 0x22, CHR ''}'']"
proof -
  have p: "''T'' \<noteq> []" "CHR '']'' \<notin> set ''T''" "CHR 0x0A \<notin> set ''T''"
    "''M'' \<noteq> []" "CHR 0x0A \<notin> set ''M''" "\<not> perlSpace (hd ''M'')"
    by (simp_all add: perlSpace_def)
  note t = omitempty_drops_empty_level [OF p, THEN conjunct2]
  have "''['' @ ''T'' @ ''] [] '' @ ''M'' = ''[T] [] M''" by simp
  with t show ?thesis
    by (simp only: encodeField_def enc_T enc_M fst_conv snd_conv) (elim conjE, simp)
qed

section \<open>The response on the success path\<close>

lemma DecodeLastRune_ascii:
  "s \<noteq> [] \<Longrightarrow> ascii (last s) \<Longrightarrow> DecodeLastRune s = (of_char (last s), 1)"
  by (simp add: DecodeLastRune_def Let_def ascii_def RuneSelf_def last_conv_nth)

lemma perlSpace_IsSpace: "perlSpace c \<Longrightarrow> IsSpace (of_char c)"
  by (auto simp: perlSpace_def IsSpace_def)

lemma TrimRightSpace_last: "TrimRightSpace s \<noteq> [] \<Longrightarrow> \<not> perlSpace (last (TrimRightSpace s))"
proof (induction s rule: TrimRightSpace.induct)
  case (1 s)
  show ?case
  proof (cases "s = []")
    case True
    with 1(2) show ?thesis by (simp add: TrimRightSpace.simps)
  next
    case False
    obtain r w where d: "DecodeLastRune s = (r, w)" by (cases "DecodeLastRune s") auto
    show ?thesis
    proof (cases "IsSpace r")
      case True
      with False d have e: "TrimRightSpace s = TrimRightSpace (take (length s - w) s)"
        by (subst TrimRightSpace.simps) simp
      with 1(1) [OF False d [symmetric] True] 1(2) show ?thesis by simp
    next
      case ns: False
      with False d have e: "TrimRightSpace s = s" by (subst TrimRightSpace.simps) simp
      show ?thesis
      proof
        assume "perlSpace (last (TrimRightSpace s))"
        then have p: "perlSpace (last s)" using e by simp
        with DecodeLastRune_ascii [OF False perlSpace_ascii [OF p]] d
        have "r = of_char (last s)" by simp
        with perlSpace_IsSpace [OF p] ns show False by simp
      qed
    qed
  qed
qed

lemma TrimSpace_last: "TrimSpace s \<noteq> [] \<Longrightarrow> \<not> perlSpace (last (TrimSpace s))"
  unfolding TrimSpace_def by (rule TrimRightSpace_last)

lemma lineMatch_message:
  assumes "lineMatch line A B C" and "\<not> perlSpace (last line)"
  shows "C \<noteq> []"
proof
  assume "C = []"
  with assms(1) obtain ws1 ws2 where
    h: "line = (''['' @ A @ '']'' @ ws1 @ ''['' @ B @ '']'') @ ws2" "ws2 \<noteq> []" "list_all perlSpace ws2"
    unfolding lineMatch_def by auto
  then have "last line = last ws2" by (metis last_appendR)
  moreover have "perlSpace (last ws2)" using h(2,3) by (simp add: list_all_iff)
  ultimately show False using assms(2) by simp
qed

lemma entry_keys:
  assumes "line = TrimSpace x" and "line \<noteq> []"
  shows "map fst (emittedFields (classifyLine line)) = [''raw'']
       \<or> map fst (emittedFields (classifyLine line))
           = (if Timestamp (classifyLine line) = [] then [] else [''timestamp''])
             @ (if Level (classifyLine line) = [] then [] else [''level'']) @ [''message'']"
proof (cases "FindStringSubmatch logRegex 3 line = []")
  case True
  then have "classifyLine line = \<lparr>Timestamp = [], Level = [], Message = [], Raw = line\<rparr>"
    by (simp add: classifyLine_def)
  with assms(2) show ?thesis
    by (simp add: emittedFields_def LogEntry_fields_def isEmptyValue_def)
next
  case False
  from FindStringSubmatch_sound [OF False] obtain A B C where
    m: "lineMatch line A B C" and f: "FindStringSubmatch logRegex 3 line = [line, A, B, C]" by blast
  have "\<not> perlSpace (last line)" using TrimSpace_last [of x] assms by simp
  from lineMatch_message [OF m this] have C: "C \<noteq> []" .
  from f have "classifyLine line = \<lparr>Timestamp = A, Level = B, Message = C, Raw = []\<rparr>"
    by (simp add: classifyLine_def)
  with C show ?thesis
    by (simp add: emittedFields_def LogEntry_fields_def isEmptyValue_def)
qed

lemma parseText_set:
  "e \<in> set (parseText text) \<Longrightarrow> \<exists>x. TrimSpace x \<noteq> [] \<and> e = classifyLine (TrimSpace x)"
  by (auto simp: parseText_def parseLoop_eq)

lemma parseText_TM:
  "parseText ''[T] [] M'' = [\<lparr>Timestamp = ''T'', Level = [], Message = ''M'', Raw = []\<rparr>]"
  by code_simp

text \<open>
  Claim C7, as amended. For a POST whose body is read and has at least one line that is
  not blank, when the write to the client does not fail: the status is 200, the headers
  \<^verbatim>\<open>Content-Type: application/json\<close> and \<^verbatim>\<open>Access-Control-Allow-Origin: *\<close> are set, the
  body is a JSON array of one object for each entry, and the response body of the
  record is these bytes. The object of a raw entry has the key \<^verbatim>\<open>raw\<close> only; the object
  of a structured entry has the key \<^verbatim>\<open>message\<close> and, each only when its group is not
  empty, the keys \<^verbatim>\<open>timestamp\<close> and \<^verbatim>\<open>level\<close> before it.
\<close>

theorem success_response:
  assumes "Method r = MethodPost" and "Body r = Inr text" and "writeErr env = None"
      and "parseText text \<noteq> []"
  shows "status (fst (parseHandler env NewResponseWriter r table)) = Some StatusOK
    \<and> Header (fst (parseHandler env NewResponseWriter r table)) ''Content-Type''
        = Some ''application/json''
    \<and> Header (fst (parseHandler env NewResponseWriter r table)) ''Access-Control-Allow-Origin''
        = Some ''*''
    \<and> written (fst (parseHandler env NewResponseWriter r table))
        = ''['' @ joinComma (map encodeStruct (parseText text)) @ '']''
    \<and> map ResponseBody (execs (snd (snd (parseHandler env NewResponseWriter r table))))
        = [written (fst (parseHandler env NewResponseWriter r table))]
    \<and> (\<forall>e \<in> set (parseText text).
          encodeStruct e = ''{'' @ joinComma (map encodeField (emittedFields e)) @ ''}''
          \<and> (map fst (emittedFields e) = [''raw'']
             \<or> map fst (emittedFields e)
                 = (if Timestamp e = [] then [] else [''timestamp''])
                   @ (if Level e = [] then [] else [''level'']) @ [''message'']))"
proof -
  have k: "\<forall>e \<in> set (parseText text).
          encodeStruct e = ''{'' @ joinComma (map encodeField (emittedFields e)) @ ''}''
          \<and> (map fst (emittedFields e) = [''raw'']
             \<or> map fst (emittedFields e)
                 = (if Timestamp e = [] then [] else [''timestamp''])
                   @ (if Level e = [] then [] else [''level'']) @ [''message''])"
  proof
    fix e assume "e \<in> set (parseText text)"
    from parseText_set [OF this] obtain x where
      x: "TrimSpace x \<noteq> []" "e = classifyLine (TrimSpace x)" by blast
    from entry_keys [OF refl x(1)] x(2) show
      "encodeStruct e = ''{'' @ joinComma (map encodeField (emittedFields e)) @ ''}''
          \<and> (map fst (emittedFields e) = [''raw'']
             \<or> map fst (emittedFields e)
                 = (if Timestamp e = [] then [] else [''timestamp''])
                   @ (if Level e = [] then [] else [''level'']) @ [''message''])"
      by (simp add: encodeStruct_def)
  qed
  have w: "written (fst (parseHandler env NewResponseWriter r table))
        = ''['' @ joinComma (map encodeStruct (parseText text)) @ '']''"
    using assms
    by (simp add: parseHandler_POST [OF assms(1,2)] Write_def WriteHeader_def
          NewResponseWriter_def encodeSlice_def)
  have h: "status (fst (parseHandler env NewResponseWriter r table)) = Some StatusOK"
    "Header (fst (parseHandler env NewResponseWriter r table)) ''Content-Type''
        = Some ''application/json''"
    "Header (fst (parseHandler env NewResponseWriter r table)) ''Access-Control-Allow-Origin''
        = Some ''*''"
    using assms
    by (simp_all add: parseHandler_POST [OF assms(1,2)] Write_def WriteHeader_def
          NewResponseWriter_def)
  have b: "map ResponseBody (execs (snd (snd (parseHandler env NewResponseWriter r table))))
        = [encodeSlice (parseText text)]"
    using assms(3)
    by (simp add: parseHandler_POST [OF assms(1,2)] execs_recordLog execs_append)
  from assms(4) have "encodeSlice (parseText text)
       = ''['' @ joinComma (map encodeStruct (parseText text)) @ '']''"
    by (simp add: encodeSlice_def)
  with b w h k show ?thesis by simp
qed

theorem success_response_witness:
  "Method \<lparr>Method = ''POST'', RemoteAddr = ''h'', URL_Path = ''/api/parse'', Body = Inr ''[T] [] M''\<rparr>
      = MethodPost
   \<and> writeErr \<lparr>now = 0, execErr = None, writeErr = None\<rparr> = None
   \<and> parseText ''[T] [] M'' \<noteq> []
   \<and> status (fst (parseHandler \<lparr>now = 0, execErr = None, writeErr = None\<rparr> NewResponseWriter
        \<lparr>Method = ''POST'', RemoteAddr = ''h'', URL_Path = ''/api/parse'', Body = Inr ''[T] [] M''\<rparr>
        [])) = Some 200
   \<and> written (fst (parseHandler \<lparr>now = 0, execErr = None, writeErr = None\<rparr> NewResponseWriter
        \<lparr>Method = ''POST'', RemoteAddr = ''h'', URL_Path = ''/api/parse'', Body = Inr ''[T] [] M''\<rparr>
        []))
      = ''['' @ encodeStruct \<lparr>Timestamp = ''T'', Level = [], Message = ''M'', Raw = []\<rparr> @ '']''"
proof -
  let ?r = "\<lparr>Method = ''POST'', RemoteAddr = ''h'', URL_Path = ''/api/parse'', Body = Inr ''[T] [] M''\<rparr>"
  let ?env = "\<lparr>now = 0, execErr = None, writeErr = None\<rparr>"
  have h: "Method ?r = MethodPost" "Body ?r = Inr ''[T] [] M''" "writeErr ?env = None"
    "parseText ''[T] [] M'' \<noteq> []"
    by (simp_all add: MethodPost_def parseText_TM)
  from success_response [OF h, of "[]"] h show ?thesis
    by (simp add: parseText_TM StatusOK_def)
qed

text \<open>
  Claim C7 as it was stated says that each structured entry carries the keys
  \<^verbatim>\<open>timestamp\<close>, \<^verbatim>\<open>level\<close> and \<^verbatim>\<open>message\<close>. The line \<^verbatim>\<open>[T] [] M\<close> is structured, and
  the object sent for it has no key \<^verbatim>\<open>level\<close>.
\<close>

theorem success_response_counterexample:
  "classifyLine ''[T] [] M'' = \<lparr>Timestamp = ''T'', Level = [], Message = ''M'', Raw = []\<rparr>
   \<and> ''level'' \<notin> set (map fst (emittedFields (classifyLine ''[T] [] M'')))
   \<and> written (fst (parseHandler \<lparr>now = 0, execErr = None, writeErr = None\<rparr> NewResponseWriter
        \<lparr>Method = ''POST'', RemoteAddr = ''h'', URL_Path = ''/api/parse'', Body = Inr ''[T] [] M''\<rparr>
        []))
      = [CHR ''['', CHR ''{'', CHR 0x22] @ ''timestamp'' @ [CHR 0x22, CHR '':'', CHR 0x22] @ ''T''
         @ [CHR 0x22, CHR '','', CHR 0x22] @ ''message'' @ [CHR 0x22, CHR '':'', CHR 0x22] @ ''M''
         @ [CHR 0x22, CHR ''}'', CHR '']'']"
proof -
  have sp: "list_all perlSpace '' ''" "'' '' \<noteq> []" "\<not> perlSpace (hd ''M'')"
    by (simp_all add: perlSpace_def)
  have "classifyLine (''['' @ ''T'' @ '']'' @ '' '' @ ''['' @ [] @ '']'' @ '' '' @ ''M'')
          = \<lparr>Timestamp = ''T'', Level = [], Message = ''M'', Raw = []\<rparr>"
    by (rule classifyLine_simple) (use sp in simp_all)
  then have c: "classifyLine ''[T] [] M''
          = \<lparr>Timestamp = ''T'', Level = [], Message = ''M'', Raw = []\<rparr>" by simp
  have e: "emittedFields \<lparr>Timestamp = ''T'', Level = [], Message = ''M'', Raw = []\<rparr>
             = [(''timestamp'', ''T''), (''message'', ''M'')]"
    by (simp add: emittedFields_def LogEntry_fields_def isEmptyValue_def)
  let ?r = "\<lparr>Method = ''POST'', RemoteAddr = ''h'', URL_Path = ''/api/parse'', Body = Inr ''[T] [] M''\<rparr>"
  have h: "Method ?r = MethodPost" "Body ?r = Inr ''[T] [] M''" by (simp_all add: MethodPost_def)
  have w: "written (fst (parseHandler \<lparr>now = 0, execErr = None, writeErr = None\<rparr>
              NewResponseWriter ?r []))
         = ''['' @ encodeStruct \<lparr>Timestamp = ''T'', Level = [], Message = ''M'', Raw = []\<rparr> @ '']''"
    by (simp add: parseHandler_POST [OF h] Write_def WriteHeader_def NewResponseWriter_def
          encodeSlice_def parseText_TM)
  show ?thesis
    unfolding c w by (simp add: e encodeStruct_def encodeField_def enc_T enc_M)
qed

section \<open>Lines end at newline bytes only\<close>

lemma list_shape4:
  obtains "t = []" | d where "t = [d]" | d e where "t = [d, e]"
    | d e f u where "t = d # e # f # u"
proof (cases t)
  case Nil then show ?thesis using that by blast
next
  case (Cons d t1)
  show ?thesis
  proof (cases t1)
    case Nil with Cons show ?thesis using that by blast
  next
    case (Cons e t2)
    note c2 = this
    show ?thesis
    proof (cases t2)
      case Nil with c2 \<open>t = d # t1\<close> show ?thesis using that by blast
    next
      case (Cons f u) with c2 \<open>t = d # t1\<close> show ?thesis using that by blast
    qed
  qed
qed

lemma DecodeRune_append_ascii:
  assumes "t \<noteq> []" and "ascii a"
  shows "DecodeRune (t @ a # z) = DecodeRune t"
proof -
  from assms(1) obtain c t' where t: "t = c # t'" by (cases t) auto
  have a: "(of_char a :: nat) < 128" using assms(2) by (simp add: ascii_def)
  show ?thesis
  proof (cases "utf8_first (of_char c)")
    case None
    with t show ?thesis by (simp add: DecodeRune_def Let_def)
  next
    case (Some p)
    obtain sz lo hi where p: "p = (sz, lo, hi)" by (cases p) auto
    from Some p utf8_first_Some [of "of_char c" sz lo hi]
    have sz: "sz = 2 \<or> sz = 3 \<or> sz = 4" and lo: "128 \<le> lo" by simp_all
    from a lo have alo: "(of_char a :: nat) < lo" by simp
    show ?thesis
    proof (cases t' rule: list_shape4)
      case 1
      with t Some p sz alo a show ?thesis by (auto simp: DecodeRune_def Let_def)
    next
      case (2 d)
      with t Some p sz alo a show ?thesis by (auto simp: DecodeRune_def Let_def)
    next
      case (3 d e)
      with t Some p sz alo a show ?thesis by (auto simp: DecodeRune_def Let_def)
    next
      case (4 d e f u)
      with t Some p sz alo a show ?thesis by (auto simp: DecodeRune_def Let_def)
    qed
  qed
qed

lemma DecodeRune_prefix:
  assumes "DecodeRune t = (r, length t)" and "r \<noteq> RuneError"
  shows "DecodeRune (t @ u) = (r, length t)"
proof (cases t)
  case Nil
  with assms show ?thesis by (simp add: DecodeRune_def)
next
  case (Cons c t')
  show ?thesis
  proof (cases "utf8_first (of_char c)")
    case None
    with Cons assms show ?thesis by (auto simp: DecodeRune_def Let_def split: if_splits)
  next
    case (Some p)
    obtain sz lo hi where p: "p = (sz, lo, hi)" by (cases p) auto
    from Some p utf8_first_Some [of "of_char c" sz lo hi]
    have sz: "sz = 2 \<or> sz = 3 \<or> sz = 4" by simp
    show ?thesis
    proof (cases t' rule: list_shape4)
      case 1
      with Cons Some p sz assms show ?thesis
        by (auto simp: DecodeRune_def Let_def split: if_splits)
    next
      case (2 d)
      with Cons Some p sz assms show ?thesis
        by (auto simp: DecodeRune_def Let_def split: if_splits)
    next
      case (3 d e)
      with Cons Some p sz assms show ?thesis
        by (auto simp: DecodeRune_def Let_def split: if_splits)
    next
      case (4 d e f u)
      with Cons Some p sz assms show ?thesis
        by (auto simp: DecodeRune_def Let_def split: if_splits)
    qed
  qed
qed


lemma runes_Nil: "runes [] = []"
  by (simp add: runes.simps)

lemma runes_ascii_Cons: "ascii a \<Longrightarrow> runes (a # z) = of_char a # runes z"
  by (subst runes.simps) (simp add: DecodeRune_ascii)

lemma drop_width_append:
  "t \<noteq> [] \<Longrightarrow> drop (snd (DecodeRune t)) (t @ u) = drop (snd (DecodeRune t)) t @ u"
  using DecodeRune_width_le [of t] by simp

lemma runes_append_ascii:
  "ascii a \<Longrightarrow> runes (x @ a # z) = runes x @ runes (a # z)"
proof (induction "length x" arbitrary: x rule: less_induct)
  case less
  show ?case
  proof (cases "x = []")
    case True
    then show ?thesis by (simp add: runes_Nil)
  next
    case False
    let ?w = "snd (DecodeRune x)"
    have d: "DecodeRune (x @ a # z) = DecodeRune x"
      by (rule DecodeRune_append_ascii [OF False less.prems])
    have lt: "length (drop ?w x) < length x" using False DecodeRune_width_pos [of x] by simp
    have "runes (x @ a # z) = fst (DecodeRune x) # runes (drop ?w x @ a # z)"
      using False DecodeRune_width_le [of x] by (subst runes.simps) (simp add: d)
    also have "\<dots> = fst (DecodeRune x) # (runes (drop ?w x) @ runes (a # z))"
      using less.hyps [OF lt less.prems] by simp
    also have "\<dots> = runes x @ runes (a # z)"
      using False by (subst (2) runes.simps) simp
    finally show ?thesis .
  qed
qed

lemma TrimLeftSpace_unfold:
  "TrimLeftSpace s =
     (if s = [] then []
      else if IsSpace (fst (DecodeRune s)) then TrimLeftSpace (drop (snd (DecodeRune s)) s)
      else s)"
  by (subst TrimLeftSpace.simps) (simp split: prod.splits)

lemma TrimRightSpace_unfold:
  "TrimRightSpace s =
     (if s = [] then []
      else if IsSpace (fst (DecodeLastRune s))
        then TrimRightSpace (take (length s - snd (DecodeLastRune s)) s)
      else s)"
  by (subst TrimRightSpace.simps) (simp split: prod.splits)

lemma TrimLeftSpace_Nil_iff: "TrimLeftSpace s = [] \<longleftrightarrow> list_all IsSpace (runes s)"
proof (induction "length s" arbitrary: s rule: less_induct)
  case less
  show ?case
  proof (cases "s = []")
    case True
    then show ?thesis by (simp add: runes_Nil TrimLeftSpace.simps)
  next
    case False
    let ?w = "snd (DecodeRune s)"
    have lt: "length (drop ?w s) < length s" using False DecodeRune_width_pos [of s] by simp
    have r: "runes s = fst (DecodeRune s) # runes (drop ?w s)"
      using False by (subst runes.simps) simp
    show ?thesis
    proof (cases "IsSpace (fst (DecodeRune s))")
      case True
      then have "TrimLeftSpace s = TrimLeftSpace (drop ?w s)"
        using False TrimLeftSpace_unfold [of s] by simp
      with less [OF lt] True r show ?thesis by simp
    next
      case ns: False
      then have "TrimLeftSpace s = s"
        using False TrimLeftSpace_unfold [of s] by simp
      with ns False r show ?thesis by simp
    qed
  qed
qed

lemma TrimLeftSpace_append_ascii:
  assumes "ascii a"
  shows "TrimLeftSpace (x @ a # z)
           = (if TrimLeftSpace x = [] then TrimLeftSpace (a # z) else TrimLeftSpace x @ a # z)"
proof (induction "length x" arbitrary: x rule: less_induct)
  case less
  show ?case
  proof (cases "x = []")
    case True
    then show ?thesis by (simp add: TrimLeftSpace.simps [of "[]"])
  next
    case False
    let ?w = "snd (DecodeRune x)"
    have d: "DecodeRune (x @ a # z) = DecodeRune x"
      by (rule DecodeRune_append_ascii [OF False assms])
    have lt: "length (drop ?w x) < length x" using False DecodeRune_width_pos [of x] by simp
    show ?thesis
    proof (cases "IsSpace (fst (DecodeRune x))")
      case True
      then have 1: "TrimLeftSpace x = TrimLeftSpace (drop ?w x)"
        using False TrimLeftSpace_unfold [of x] by simp
      from True have 2: "TrimLeftSpace (x @ a # z) = TrimLeftSpace (drop ?w x @ a # z)"
        using False TrimLeftSpace_unfold [of "x @ a # z"] DecodeRune_width_le [of x]
        by (simp add: d)
      from less [OF lt] 1 2 show ?thesis by simp
    next
      case ns: False
      then have 1: "TrimLeftSpace x = x"
        using False TrimLeftSpace_unfold [of x] by simp
      from ns have 2: "TrimLeftSpace (x @ a # z) = x @ a # z"
        using False TrimLeftSpace_unfold [of "x @ a # z"] by (simp add: d)
      from 1 2 False show ?thesis by simp
    qed
  qed
qed

lemma DecodeLastRune_cases:
  assumes "s \<noteq> []" and "DecodeLastRune s = (r, w)"
  shows "(ascii (last s) \<and> r = of_char (last s) \<and> w = 1)
       \<or> (r = RuneError \<and> w = 1)
       \<or> (\<not> ascii (last s) \<and> w \<le> length s \<and> DecodeRune (drop (length s - w) s) = (r, w))"
proof (cases "ascii (last s)")
  case True
  with DecodeLastRune_ascii [OF assms(1) True] assms(2) show ?thesis by simp
next
  case False
  define start where
    "start = nat (max 0 (scanStart s (int (length s) - 2) (max 0 (int (length s) - int UTFMax))))"
  obtain r' w' where d: "DecodeRune (drop start s) = (r', w')"
    by (cases "DecodeRune (drop start s)") auto
  from False assms(1) have na: "\<not> (of_char (s ! (length s - 1)) :: nat) < RuneSelf"
    by (simp add: ascii_def RuneSelf_def last_conv_nth)
  from assms na d have e: "(r, w) = (if start + w' \<noteq> length s then (RuneError, 1) else (r', w'))"
    unfolding DecodeLastRune_def Let_def start_def [symmetric] by simp
  show ?thesis
  proof (cases "start + w' = length s")
    case True
    with e have rw: "r = r'" "w = w'" by simp_all
    with True have st: "length s - w = start" "w \<le> length s" by simp_all
    from d rw have "DecodeRune (drop (length s - w) s) = (r, w)" unfolding st by simp
    with False st show ?thesis by simp
  next
    case ne: False
    with e show ?thesis by simp
  qed
qed


lemma not_IsSpace_RuneError: "\<not> IsSpace RuneError"
  by (simp add: IsSpace_def RuneError_def)

lemma TrimRightSpace_keeps_prefix:
  assumes a: "ascii a" and ns: "\<not> IsSpace (fst (DecodeRune y))"
  shows "0 < m \<Longrightarrow> m \<le> length y
           \<Longrightarrow> \<exists>n. 0 < n \<and> n \<le> m \<and> TrimRightSpace (z @ a # take m y) = z @ a # take n y"
proof (induction m rule: less_induct)
  case (less m)
  let ?y1 = "take m y"
  let ?s = "z @ a # ?y1"
  have ly: "length ?y1 = m" using less.prems by simp
  have y1: "?y1 \<noteq> []" using less.prems by auto
  have ls: "last ?s = last ?y1" using y1 by simp
  have sn: "?s \<noteq> []" by simp
  obtain r w where d: "DecodeLastRune ?s = (r, w)" by (cases "DecodeLastRune ?s") auto
  have wpos: "0 < w" using DecodeLastRune_width_pos [OF sn] d by simp
  show ?case
  proof (cases "IsSpace r")
    case False
    with d have "TrimRightSpace ?s = ?s" using TrimRightSpace_unfold [of ?s] by simp
    with less.prems show ?thesis by blast
  next
    case True
    with d have u: "TrimRightSpace ?s = TrimRightSpace (take (length ?s - w) ?s)"
      using TrimRightSpace_unfold [of ?s] by simp
    have wle: "w \<le> m \<and> DecodeRune (drop (m - w) ?y1) = (r, w)"
    proof -
      from DecodeLastRune_cases [OF sn d] True not_IsSpace_RuneError
      consider (asc) "ascii (last ?s)" "r = of_char (last ?s)" "w = 1"
        | (multi) "\<not> ascii (last ?s)" "w \<le> length ?s" "DecodeRune (drop (length ?s - w) ?s) = (r, w)"
        by auto
      then show ?thesis
      proof cases
        case asc
        have "drop (m - 1) ?y1 = [last ?y1]"
          using y1 ly by (metis append_butlast_last_id append_eq_conv_conj length_butlast)
        with asc ls less.prems show ?thesis by (simp add: DecodeRune_ascii)
      next
        case multi
        let ?q = "drop (length ?s - w) ?s"
        have lq: "length ?q = w" using multi(2) by simp
        then obtain c q' where q: "?q = c # q'" using wpos by (cases ?q) auto
        have nc: "\<not> ascii c"
        proof
          assume "ascii c"
          with multi(3) q have "w = 1" by (simp add: DecodeRune_ascii)
          with q lq have "?q = [last ?s]"
            by (metis append_butlast_last_id append_eq_conv_conj diff_Suc_1 length_butlast
                  length_drop One_nat_def sn)
          with q \<open>ascii c\<close> multi(1) show False by simp
        qed
        from rune_step [of c q' r w] multi(3) q nc
        have all: "\<forall>x \<in> set (take w ?q). \<not> ascii x" by simp
        have wm: "w \<le> m"
        proof (rule ccontr)
          assume "\<not> w \<le> m"
          then have "length ?s - w \<le> length z" using ly by simp
          then have "?q = drop (length ?s - w) z @ a # ?y1" by simp
          then have "a \<in> set ?q" by simp
          with all lq a show False by simp
        qed
        then have "length ?s - w = length (z @ [a]) + (m - w)" using ly by simp
        then have "?q = drop (m - w) ?y1"
          by (metis append.assoc append_Cons append_Nil drop_append length_append
                append_eq_conv_conj drop_drop add.commute)
        with multi(3) wm show ?thesis by simp
      qed
    qed
    then have wm: "w \<le> m" and dq: "DecodeRune (drop (m - w) ?y1) = (r, w)" by simp_all
    have tk: "take (length ?s - w) ?s = z @ a # take (m - w) y"
    proof -
      have "length ?s - w = length (z @ [a]) + (m - w)" using ly wm by simp
      then have "take (length ?s - w) ?s = (z @ [a]) @ take (m - w) ?y1"
        by (metis append.assoc append_Cons append_Nil take_append append_eq_conv_conj
              take_add add.commute length_append take_all order_refl)
      then show ?thesis using less.prems by (simp add: min_def)
    qed
    have "w \<noteq> m"
    proof
      assume "w = m"
      with dq have "DecodeRune ?y1 = (r, length ?y1)" using ly by simp
      moreover have "r \<noteq> RuneError" using True not_IsSpace_RuneError by auto
      ultimately have "DecodeRune (?y1 @ drop m y) = (r, length ?y1)" by (rule DecodeRune_prefix)
      with True ns show False by simp
    qed
    with wm have lt: "m - w < m" "0 < m - w" "m - w \<le> length y" using wpos less.prems by simp_all
    from less.IH [OF lt] obtain n where
      "0 < n" "n \<le> m - w" "TrimRightSpace (z @ a # take (m - w) y) = z @ a # take n y" by blast
    with u tk show ?thesis by (metis diff_le_self le_trans)
  qed
qed

lemma TrimRightSpace_keeps:
  assumes "ascii a" and "y \<noteq> []" and "\<not> IsSpace (fst (DecodeRune y))"
  shows "\<exists>n. 0 < n \<and> n \<le> length y \<and> TrimRightSpace (z @ a # y) = z @ a # take n y"
  using TrimRightSpace_keeps_prefix [OF assms(1,3), of "length y" z] assms(2) by simp


lemma Split_nl_ne: "Split_nl s \<noteq> []"
  by (induction s) (auto split: list.splits)

lemma Split_nl_no_newline: "CHR 0x0A \<notin> set a \<Longrightarrow> Split_nl a = [a]"
  by (induction a) auto

lemma Split_nl_append: "Split_nl (a @ CHR 0x0A # b) = Split_nl a @ Split_nl b"
proof (induction a)
  case Nil
  then show ?case by simp
next
  case (Cons c a)
  obtain l ls where s: "Split_nl a = l # ls" using Split_nl_ne [of a] by (cases "Split_nl a") auto
  with Cons show ?case by simp
qed

lemma Split_nl_snoc:
  "c \<noteq> CHR 0x0A \<Longrightarrow> Split_nl (a @ [c]) = butlast (Split_nl a) @ [last (Split_nl a) @ [c]]"
proof (induction a)
  case Nil
  then show ?case by simp
next
  case (Cons d a)
  obtain l ls where s: "Split_nl a = l # ls" using Split_nl_ne [of a] by (cases "Split_nl a") auto
  obtain l' ls' where s': "Split_nl (a @ [c]) = l' # ls'"
    using Split_nl_ne [of "a @ [c]"] by (cases "Split_nl (a @ [c])") auto
  from Cons s s' show ?case by (cases ls) (auto split: if_splits)
qed

lemma IsSpace_CR: "IsSpace 13"
  by (simp add: IsSpace_def)

lemma ascii_CR: "ascii (CHR 0x0D)"
  by (simp add: ascii_def)

lemma TrimLeftSpace_CR: "TrimLeftSpace (CHR 0x0D # l) = TrimLeftSpace l"
  using TrimLeftSpace_unfold [of "CHR 0x0D # l"] by (simp add: DecodeRune_ascii ascii_CR IsSpace_CR)

lemma TrimRightSpace_CR: "TrimRightSpace (u @ [CHR 0x0D]) = TrimRightSpace u"
  using TrimRightSpace_unfold [of "u @ [CHR 0x0D]"]
  by (simp add: DecodeLastRune_ascii ascii_CR IsSpace_CR)

lemma TrimSpace_CR_front: "TrimSpace (CHR 0x0D # l) = TrimSpace l"
  by (simp add: TrimSpace_def TrimLeftSpace_CR)

lemma TrimSpace_CR_back: "TrimSpace (l @ [CHR 0x0D]) = TrimSpace l"
proof -
  have "TrimLeftSpace (l @ [CHR 0x0D])
          = (if TrimLeftSpace l = [] then [] else TrimLeftSpace l @ [CHR 0x0D])"
    using TrimLeftSpace_append_ascii [OF ascii_CR, of l "[]"]
    by (simp add: TrimLeftSpace_CR TrimLeftSpace_unfold [of "[]"])
  then show ?thesis
    by (simp add: TrimSpace_def TrimRightSpace_CR)
qed

lemma parseText_eq:
  "parseText text = map classifyLine (filter (\<lambda>l. l \<noteq> []) (map TrimSpace (Split_nl text)))"
  by (simp add: parseText_def parseLoop_eq)

lemma parseText_CRLF: "parseText (a @ CHR 0x0D # CHR 0x0A # b) = parseText (a @ CHR 0x0A # b)"
proof -
  have "map TrimSpace (Split_nl (a @ [CHR 0x0D])) = map TrimSpace (Split_nl a)"
  proof -
    have "map TrimSpace (Split_nl (a @ [CHR 0x0D]))
            = map TrimSpace (butlast (Split_nl a)) @ [TrimSpace (last (Split_nl a))]"
      by (simp add: Split_nl_snoc TrimSpace_CR_back)
    also have "\<dots> = map TrimSpace (butlast (Split_nl a) @ [last (Split_nl a)])" by simp
    also have "\<dots> = map TrimSpace (Split_nl a)" using Split_nl_ne [of a] by simp
    finally show ?thesis .
  qed
  moreover have "a @ CHR 0x0D # CHR 0x0A # b = (a @ [CHR 0x0D]) @ CHR 0x0A # b" by simp
  ultimately show ?thesis
    by (simp only: parseText_eq Split_nl_append map_append)
qed

lemma parseText_LFCR: "parseText (a @ CHR 0x0A # CHR 0x0D # b) = parseText (a @ CHR 0x0A # b)"
proof -
  obtain l ls where s: "Split_nl b = l # ls" using Split_nl_ne [of b] by (cases "Split_nl b") auto
  then have "map TrimSpace (Split_nl (CHR 0x0D # b)) = map TrimSpace (Split_nl b)"
    by (simp add: TrimSpace_CR_front)
  then show ?thesis
    by (simp only: parseText_eq Split_nl_append map_append)
qed

lemma lone_CR_line:
  assumes "x \<noteq> []" and "\<not> IsSpace (last (runes x))"
      and "y \<noteq> []" and "\<not> IsSpace (hd (runes y))"
  shows "\<exists>n. 0 < n \<and> TrimSpace (x @ CHR 0x0D # y) = TrimLeftSpace x @ CHR 0x0D # take n y
             \<and> TrimLeftSpace x \<noteq> []"
proof -
  have "runes x \<noteq> []" using assms(1) by (subst runes.simps) simp
  then have "last (runes x) \<in> set (runes x)" by simp
  with assms(2) have "\<not> list_all IsSpace (runes x)" by (auto simp: list_all_iff)
  then have u: "TrimLeftSpace x \<noteq> []" by (simp add: TrimLeftSpace_Nil_iff)
  then have l: "TrimLeftSpace (x @ CHR 0x0D # y) = TrimLeftSpace x @ CHR 0x0D # y"
    using TrimLeftSpace_append_ascii [OF ascii_CR, of x y] by simp
  have "hd (runes y) = fst (DecodeRune y)" using assms(3) by (subst runes.simps) simp
  with assms(4) have "\<not> IsSpace (fst (DecodeRune y))" by simp
  from TrimRightSpace_keeps [OF ascii_CR assms(3) this, of "TrimLeftSpace x"]
  obtain n where "0 < n" "TrimRightSpace (TrimLeftSpace x @ CHR 0x0D # y)
      = TrimLeftSpace x @ CHR 0x0D # take n y" by blast
  with l u show ?thesis by (auto simp: TrimSpace_def)
qed

lemma classifyLine_keeps:
  assumes "c \<in> set line" and "c \<noteq> CHR ''[''" and "c \<noteq> CHR '']''"
  shows "c \<in> set (Raw (classifyLine line)) \<union> set (Timestamp (classifyLine line))
               \<union> set (Level (classifyLine line)) \<union> set (Message (classifyLine line))
       \<or> (\<exists>ws1 ws2. line = ''['' @ Timestamp (classifyLine line) @ '']'' @ ws1
                           @ ''['' @ Level (classifyLine line) @ '']'' @ ws2
                           @ Message (classifyLine line)
              \<and> list_all perlSpace ws1 \<and> list_all perlSpace ws2
              \<and> c \<in> set ws1 \<union> set ws2)"
proof (cases "FindStringSubmatch logRegex 3 line = []")
  case True
  then have "classifyLine line = \<lparr>Timestamp = [], Level = [], Message = [], Raw = line\<rparr>"
    by (simp add: classifyLine_def)
  with assms(1) show ?thesis by simp
next
  case False
  from FindStringSubmatch_sound [OF False] obtain A B C where
    m: "lineMatch line A B C" and f: "FindStringSubmatch logRegex 3 line = [line, A, B, C]" by blast
  from f have e: "classifyLine line = \<lparr>Timestamp = A, Level = B, Message = C, Raw = []\<rparr>"
    by (simp add: classifyLine_def)
  from m obtain ws1 ws2 where
    h: "line = ''['' @ A @ '']'' @ ws1 @ ''['' @ B @ '']'' @ ws2 @ C"
       "list_all perlSpace ws1" "list_all perlSpace ws2"
    unfolding lineMatch_def by blast
  from assms h(1) have "c \<in> set A \<union> set B \<union> set C \<or> c \<in> set ws1 \<union> set ws2" by auto
  with h show ?thesis unfolding e by auto
qed

text \<open>
  Claim C10, as amended. The text is split at the newline bytes and nowhere else (the
  pieces of \<open>a\<close>, newline, \<open>b\<close> are those of \<open>a\<close> followed by those of \<open>b\<close>, and a text
  without newline is one piece). A carriage return next to a newline, before or after
  it, is trimmed away with the white space of its line: the entries are those of the text
  without it. A carriage return with a rune that is not white space right before it and
  right after it on its line does not end the line: the text \<open>x\<close>, carriage return, \<open>y\<close>
  gives one entry, classified from the trimmed line, and the trimmed line still holds
  the carriage return. It is then in the entry (in \<^verbatim>\<open>Raw\<close> or in one of the three
  groups), unless the line has the shape \<^verbatim>\<open>[A] [B] C\<close> and the carriage return is part
  of the white space after one of the two bracket groups, which \<^verbatim>\<open>\s+\<close> takes and no
  group holds.
\<close>

theorem split_on_newline_only:
  "Split_nl (a @ CHR 0x0A # b) = Split_nl a @ Split_nl b
   \<and> (CHR 0x0A \<notin> set x \<longrightarrow> Split_nl x = [x])
   \<and> parseText (a @ CHR 0x0D # CHR 0x0A # b) = parseText (a @ CHR 0x0A # b)
   \<and> parseText (a @ CHR 0x0A # CHR 0x0D # b) = parseText (a @ CHR 0x0A # b)
   \<and> (CHR 0x0A \<notin> set x \<and> CHR 0x0A \<notin> set y
       \<and> x \<noteq> [] \<and> \<not> IsSpace (last (runes x)) \<and> y \<noteq> [] \<and> \<not> IsSpace (hd (runes y))
      \<longrightarrow> parseText (x @ CHR 0x0D # y) = [classifyLine (TrimSpace (x @ CHR 0x0D # y))]
          \<and> CHR 0x0D \<in> set (TrimSpace (x @ CHR 0x0D # y))
          \<and> (CHR 0x0D \<in> set (Raw (hd (parseText (x @ CHR 0x0D # y))))
                         \<union> set (Timestamp (hd (parseText (x @ CHR 0x0D # y))))
                         \<union> set (Level (hd (parseText (x @ CHR 0x0D # y))))
                         \<union> set (Message (hd (parseText (x @ CHR 0x0D # y))))
             \<or> (\<exists>ws1 ws2. TrimSpace (x @ CHR 0x0D # y)
                     = ''['' @ Timestamp (hd (parseText (x @ CHR 0x0D # y))) @ '']'' @ ws1
                       @ ''['' @ Level (hd (parseText (x @ CHR 0x0D # y))) @ '']'' @ ws2
                       @ Message (hd (parseText (x @ CHR 0x0D # y)))
                   \<and> list_all perlSpace ws1 \<and> list_all perlSpace ws2
                   \<and> CHR 0x0D \<in> set ws1 \<union> set ws2)))"
proof -
  have c: "parseText (x @ CHR 0x0D # y) = [classifyLine (TrimSpace (x @ CHR 0x0D # y))]
          \<and> CHR 0x0D \<in> set (TrimSpace (x @ CHR 0x0D # y))
          \<and> (CHR 0x0D \<in> set (Raw (hd (parseText (x @ CHR 0x0D # y))))
                         \<union> set (Timestamp (hd (parseText (x @ CHR 0x0D # y))))
                         \<union> set (Level (hd (parseText (x @ CHR 0x0D # y))))
                         \<union> set (Message (hd (parseText (x @ CHR 0x0D # y))))
             \<or> (\<exists>ws1 ws2. TrimSpace (x @ CHR 0x0D # y)
                     = ''['' @ Timestamp (hd (parseText (x @ CHR 0x0D # y))) @ '']'' @ ws1
                       @ ''['' @ Level (hd (parseText (x @ CHR 0x0D # y))) @ '']'' @ ws2
                       @ Message (hd (parseText (x @ CHR 0x0D # y)))
                   \<and> list_all perlSpace ws1 \<and> list_all perlSpace ws2
                   \<and> CHR 0x0D \<in> set ws1 \<union> set ws2))"
    if h: "CHR 0x0A \<notin> set x" "CHR 0x0A \<notin> set y"
       "x \<noteq> []" "\<not> IsSpace (last (runes x))" "y \<noteq> []" "\<not> IsSpace (hd (runes y))"
  proof -
    let ?line = "TrimSpace (x @ CHR 0x0D # y)"
    from lone_CR_line [OF h(3,4,5,6)] obtain n where
      t: "?line = TrimLeftSpace x @ CHR 0x0D # take n y" by blast
    then have in_line: "CHR 0x0D \<in> set ?line" and ne: "?line \<noteq> []" by simp_all
    have "CHR 0x0A \<notin> set (x @ CHR 0x0D # y)" using h(1,2) by simp
    then have "Split_nl (x @ CHR 0x0D # y) = [x @ CHR 0x0D # y]" by (rule Split_nl_no_newline)
    with ne have p: "parseText (x @ CHR 0x0D # y) = [classifyLine ?line]"
      by (simp add: parseText_eq)
    from classifyLine_keeps [OF in_line] p in_line show ?thesis by simp
  qed
  show ?thesis
  proof (intro conjI impI)
    show "Split_nl (a @ CHR 0x0A # b) = Split_nl a @ Split_nl b" by (rule Split_nl_append)
    show "Split_nl x = [x]" if "CHR 0x0A \<notin> set x" using that by (rule Split_nl_no_newline)
    show "parseText (a @ CHR 0x0D # CHR 0x0A # b) = parseText (a @ CHR 0x0A # b)"
      by (rule parseText_CRLF)
    show "parseText (a @ CHR 0x0A # CHR 0x0D # b) = parseText (a @ CHR 0x0A # b)"
      by (rule parseText_LFCR)
  qed (use c in blast)+
qed

theorem split_on_newline_only_witness:
  "CHR 0x0A \<notin> set ''a'' \<and> CHR 0x0A \<notin> set ''b'' \<and> ''a'' \<noteq> [] \<and> ''b'' \<noteq> []
   \<and> \<not> IsSpace (last (runes ''a'')) \<and> \<not> IsSpace (hd (runes ''b''))
   \<and> parseText (''a'' @ CHR 0x0D # ''b'')
       = [\<lparr>Timestamp = [], Level = [], Message = [], Raw = ''a'' @ CHR 0x0D # ''b''\<rparr>]
   \<and> parseText (''p'' @ CHR 0x0D # CHR 0x0A # ''q'') = parseText (''p'' @ CHR 0x0A # ''q'')"
proof -
  have h: "CHR 0x0A \<notin> set ''a'' \<and> CHR 0x0A \<notin> set ''b'' \<and> ''a'' \<noteq> []
      \<and> \<not> IsSpace (last (runes ''a'')) \<and> ''b'' \<noteq> [] \<and> \<not> IsSpace (hd (runes ''b''))"
    by code_simp
  have e: "classifyLine (TrimSpace (''a'' @ CHR 0x0D # ''b''))
      = \<lparr>Timestamp = [], Level = [], Message = [], Raw = ''a'' @ CHR 0x0D # ''b''\<rparr>"
    by code_simp
  note t = split_on_newline_only [of "''p''" "''q''" "''a''" "''b''"]
  from t have 1: "parseText (''p'' @ CHR 0x0D # CHR 0x0A # ''q'') = parseText (''p'' @ CHR 0x0A # ''q'')"
    by blast
  from t h have "parseText (''a'' @ CHR 0x0D # ''b'')
      = [classifyLine (TrimSpace (''a'' @ CHR 0x0D # ''b''))]" by blast
  with e 1 h show ?thesis by simp
qed

text \<open>
  Claim C10 as it was stated says that such a carriage return remains inside the entry.
  In \<^verbatim>\<open>[a]\r[b] c\<close> it stands between a closing and an opening bracket, and it is the
  white space that the pattern asks for after the first group: the entry is structured
  and none of its fields holds it.
\<close>

theorem split_on_newline_only_counterexample:
  "\<not> IsSpace (last (runes ''[a]'')) \<and> \<not> IsSpace (hd (runes ''[b] c''))
   \<and> parseText (''[a]'' @ CHR 0x0D # ''[b] c'')
       = [\<lparr>Timestamp = ''a'', Level = ''b'', Message = ''c'', Raw = []\<rparr>]
   \<and> CHR 0x0D \<notin> set ''a'' \<union> set ''b'' \<union> set ''c''"
  by code_simp

end
